theory Spec2Isabelle
  imports Main "HOL-Library.Word" "HOL-Library.Multiset" "HOL-Library.AList"
begin

unbundle bit_operations_syntax

text \<open>
  A model of the snapshot consensus kernel: the round model and round graph of
  \<open>kernel/round.go\<close> and the snapshot handler with its verifier and signer. Each Go
  function is a HOL function of the same name; loops that Go writes inline are named
  functions next to it. Pointers are replaced by values: the handler works on copies
  of the rounds and stores them back by key, so no claim below depends on aliasing.
  Logging is left out.
\<close>

section \<open>Data model (kernel/round.go and the snapshot handler)\<close>

text \<open>
  Byte strings are lists of 8-bit words. \<open>crypto.Hash\<close> (a 32-byte array),
  \<open>crypto.Signature\<close> and \<open>crypto.Key\<close> are byte strings; the code only compares,
  copies and concatenates them. All round numbers and timestamps are \<open>uint64\<close>, so
  \<open>+\<close> and \<open>-\<close> wrap around as in Go.
\<close>

type_synonym byte = "8 word"
type_synonym uint64 = "64 word"
type_synonym hash = "byte list"
type_synonym signature = "byte list"
type_synonym key = "byte list"

text \<open>
  \<open>common.Snapshot\<close>, with the fields the kernel reads and writes. The transaction
  is opaque to the kernel (it is only hashed, validated and locked by the collaborators).
  \<open>References\<close> is kept as a list so that the length test of \<open>verifyReferences\<close>
  is a branch of the model.
\<close>

record Snapshot =
  NodeId :: hash
  Transaction :: "byte list"
  References :: "hash list"
  RoundNumber :: uint64
  Timestamp :: uint64
  Signatures :: "signature list"

text \<open>\<open>CacheRound\<close> and \<open>FinalRound\<close> of round.go; the field names carry the
  struct's initial because a record field is a global constant.\<close>

record CacheRound =
  cNodeId :: hash
  cNumber :: uint64
  cStart :: uint64
  cEnd :: uint64
  cSnapshots :: "Snapshot list"

record FinalRound =
  fNodeId :: hash
  fNumber :: uint64
  fStart :: uint64
  fEnd :: uint64
  fHash :: hash

text \<open>
  The library and crypto functions the kernel calls, taken as parameters:
  \<open>sort.Slice\<close> (given the \<open>less\<close> function on elements), \<open>crypto.NewHash\<close>,
  \<open>Snapshot.Payload\<close>, \<open>Snapshot.PayloadHash\<close>, \<open>Transaction.PayloadHash\<close>,
  \<open>Key.Verify\<close>, \<open>Snapshot.Sign\<close> (it gives the snapshot's signature list after
  signing; signing touches no other field), \<open>Hash.ForNetwork\<close>, the constant
  \<open>config.SnapshotRoundGap\<close> and \<open>TopoCounter.Next\<close> (from the counter's state to
  the number handed out and the next state).
\<close>

record lib =
  sort_Slice :: "(Snapshot \<Rightarrow> Snapshot \<Rightarrow> bool) \<Rightarrow> Snapshot list \<Rightarrow> Snapshot list"
  NewHash :: "byte list \<Rightarrow> hash"
  Payload :: "Snapshot \<Rightarrow> byte list"
  PayloadHash :: "Snapshot \<Rightarrow> hash"
  TransactionPayloadHash :: "byte list \<Rightarrow> hash"
  Verify :: "key \<Rightarrow> byte list \<Rightarrow> signature \<Rightarrow> bool"
  Sign :: "key \<Rightarrow> Snapshot \<Rightarrow> signature list"
  ForNetwork :: "hash \<Rightarrow> hash \<Rightarrow> hash"
  SnapshotRoundGap :: uint64
  TopoCounterNext :: "uint64 \<Rightarrow> uint64 \<times> uint64"

subsection \<open>Sealing a cache round: \<open>asFinal\<close>\<close>

text \<open>\<open>binary.BigEndian.PutUint64\<close>: the eight bytes of a \<open>uint64\<close>, most significant
  first.\<close>

definition PutUint64 :: "uint64 \<Rightarrow> byte list" where
  "PutUint64 n = map (\<lambda>i. ucast (drop_bit (8 * i) n)) [7, 6, 5, 4, 3, 2, 1, 0]"

text \<open>The \<open>less\<close> closure that \<open>asFinal\<close> hands to \<open>sort.Slice\<close>:
  \<open>c.Snapshots[i].Timestamp <= c.Snapshots[j].Timestamp\<close>.\<close>

definition timestamp_le :: "Snapshot \<Rightarrow> Snapshot \<Rightarrow> bool" where
  "timestamp_le a b = (Timestamp a \<le> Timestamp b)"

text \<open>The loop \<open>for _, s := range c.Snapshots { h := NewHash(s.Payload()); hashes =
  append(hashes, h[:]...) }\<close>.\<close>

fun append_payload_hashes :: "lib \<Rightarrow> byte list \<Rightarrow> Snapshot list \<Rightarrow> byte list" where
  "append_payload_hashes L hashes [] = hashes"
| "append_payload_hashes L hashes (s # ss) =
     append_payload_hashes L (hashes @ NewHash L (Payload L s)) ss"

text \<open>
  \<open>asFinal\<close> sorts the receiver's slice in place and returns a new \<open>FinalRound\<close>; the
  model returns the receiver after the call together with the result.
\<close>

definition asFinal :: "lib \<Rightarrow> CacheRound \<Rightarrow> CacheRound \<times> FinalRound" where
  "asFinal L c =
     (let buf = PutUint64 (cNumber c);
          hashes = cNodeId c @ buf;
          sorted_snapshots = sort_Slice L timestamp_le (cSnapshots c);
          hashes' = append_payload_hashes L hashes sorted_snapshots
      in (c\<lparr>cSnapshots := sorted_snapshots\<rparr>,
          \<lparr>fNodeId = cNodeId c, fNumber = cNumber c, fStart = cStart c, fEnd = cEnd c,
           fHash = NewHash L hashes'\<rparr>))"

text \<open>
  What Go's \<open>sort.Slice\<close> runs on a short slice (at most 6 elements in every release,
  at most 12 since the pattern-defeating quicksort): \<open>insertionSort\<close>,
  \<^verbatim>\<open>for i := a + 1; i < b; i++ {
    for j := i; j > a && less(j, j-1); j-- { swap(j, j-1) } }\<close>.
  \<open>sift lt x left\<close> is the inner loop: \<open>left\<close> holds the elements to the left of
  \<open>x\<close>, nearest first, and \<open>x\<close> moves left past each neighbour \<open>y\<close> with
  \<open>lt x y\<close>. The outer loop takes the elements in slice order.
\<close>

fun sift :: "('a \<Rightarrow> 'a \<Rightarrow> bool) \<Rightarrow> 'a \<Rightarrow> 'a list \<Rightarrow> 'a list" where
  "sift lt x [] = [x]"
| "sift lt x (y # ys) = (if lt x y then y # sift lt x ys else x # y # ys)"

fun insertionSort_from :: "('a \<Rightarrow> 'a \<Rightarrow> bool) \<Rightarrow> 'a list \<Rightarrow> 'a list \<Rightarrow> 'a list" where
  "insertionSort_from lt left [] = rev left"
| "insertionSort_from lt left (x # xs) = insertionSort_from lt (sift lt x left) xs"

definition insertionSort :: "('a \<Rightarrow> 'a \<Rightarrow> bool) \<Rightarrow> 'a list \<Rightarrow> 'a list" where
  "insertionSort lt xs = insertionSort_from lt [] xs"

section \<open>Results, the store and the peer\<close>

text \<open>
  Go's \<open>error\<close> values. The kernel builds the five reference errors itself
  (\<open>fmt.Errorf\<close> in \<open>verifyReferences\<close>); every other error comes from a collaborator.
\<close>

datatype error =
    External string
  | InvalidReferenceCount nat
  | SameReferences
  | InvalidSelfReference
  | InvalidSelfLink uint64 uint64
  | InvalidFinalLink uint64 uint64
  | InvalidReferences

text \<open>
  A call either panics (an explicit \<open>panic\<close>, a nil dereference, an index out of
  range), or returns a non-nil error and nothing else (\<open>return nil, err\<close>), or returns
  its values. Functions that return values next to an error return \<open>Ok\<close> with the error
  among the values.
\<close>

datatype 'a result = Panic | Failed error | Ok 'a

text \<open>\<open>common.SnapshotWithTopologicalOrder\<close>, what the store is asked to write.\<close>

record SnapshotWithTopologicalOrder =
  tSnapshot :: Snapshot
  TopologicalOrder :: uint64
  RoundLinks :: "hash \<rightharpoonup> uint64"

text \<open>
  The collaborators, over a state \<open>'w\<close> of the store and the network that only they
  interpret: the \<open>storage.Store\<close> methods, \<open>Transaction.Validate(store)\<close>,
  \<open>Snapshot.LockInputs(store)\<close> and \<open>Peer.SendSnapshotMessage\<close>. A read returns
  \<open>Inl\<close> its error or \<open>Inr\<close> its value; a write returns its error, if any, and the
  state it leaves. \<open>UnixNano k\<close> is what the \<open>k\<close>-th call of \<open>time.Now()\<close> in the
  process reads, in nanoseconds since the Unix epoch.
\<close>

record 'w sys =
  SnapshotsReadNodesList :: "'w \<Rightarrow> error + hash list"
  SnapshotsReadRoundMeta :: "'w \<Rightarrow> hash \<Rightarrow> error + uint64 \<times> uint64"
  SnapshotsReadSnapshotsForNodeRound :: "'w \<Rightarrow> hash \<Rightarrow> uint64 \<Rightarrow> error + Snapshot list"
  SnapshotsReadSnapshotByTransactionHash :: "'w \<Rightarrow> hash \<Rightarrow> error + Snapshot option"
  SnapshotsReadRoundLink :: "'w \<Rightarrow> hash \<Rightarrow> hash \<Rightarrow> error + uint64"
  SnapshotsWriteSnapshot :: "'w \<Rightarrow> SnapshotWithTopologicalOrder \<Rightarrow> error option \<times> 'w"
  Validate :: "'w \<Rightarrow> byte list \<Rightarrow> error option"
  LockInputs :: "'w \<Rightarrow> Snapshot \<Rightarrow> error option \<times> 'w"
  SendSnapshotMessage :: "'w \<Rightarrow> hash \<Rightarrow> Snapshot \<Rightarrow> error option \<times> 'w"
  UnixNano :: "nat \<Rightarrow> int"

section \<open>The round graph\<close>

text \<open>
  \<open>RoundGraph\<close>. The two Go maps are association lists with one entry per key:
  \<open>map_of\<close> reads, \<open>AList.update\<close> writes, and a \<open>range\<close> loop runs over the entries
  in list order, which stands for whichever order the Go runtime picks.
\<close>

record RoundGraph =
  gNodes :: "hash list"
  gCacheRound :: "(hash \<times> CacheRound) list"
  gFinalRound :: "(hash \<times> FinalRound) list"
  gFinalCache :: "FinalRound list"

text \<open>The zero value of \<open>crypto.Hash\<close>.\<close>

definition zero_hash :: hash where
  "zero_hash = replicate 32 0"

definition UpdateFinalCache :: "RoundGraph \<Rightarrow> RoundGraph" where
  "UpdateFinalCache g =
     g\<lparr>gFinalCache :=
         map (\<lambda>(k, f). \<lparr>fNodeId = fNodeId f, fNumber = fNumber f, fStart = fStart f,
                         fEnd = 0, fHash = zero_hash\<rparr>) (gFinalRound g)\<rparr>"

text \<open>The loop of \<open>loadHeadRoundForNode\<close> over the round's snapshots.\<close>

fun head_round_scan :: "CacheRound \<Rightarrow> Snapshot list \<Rightarrow> CacheRound result" where
  "head_round_scan round [] = Ok round"
| "head_round_scan round (s # ss) =
     (if Timestamp s < cStart round then Panic
      else if Timestamp s > cEnd round
        then head_round_scan (round\<lparr>cEnd := Timestamp s\<rparr>) ss
        else head_round_scan round ss)"

definition loadHeadRoundForNode :: "'w sys \<Rightarrow> 'w \<Rightarrow> hash \<Rightarrow> CacheRound result" where
  "loadHeadRoundForNode S w nodeIdWithNetwork =
     (case SnapshotsReadRoundMeta S w nodeIdWithNetwork of
        Inl err \<Rightarrow> Failed err
      | Inr (meta0, meta1) \<Rightarrow>
          (let round = \<lparr>cNodeId = nodeIdWithNetwork, cNumber = meta0, cStart = meta1,
                        cEnd = 0, cSnapshots = []\<rparr>
           in case SnapshotsReadSnapshotsForNodeRound S w (cNodeId round) (cNumber round) of
                Inl err \<Rightarrow> Failed err
              | Inr snapshots \<Rightarrow>
                  head_round_scan (round\<lparr>cSnapshots := snapshots\<rparr>) snapshots))"

text \<open>The loop of \<open>loadFinalRoundForNode\<close>: it appends each payload hash and panics on
  a timestamp outside \<open>[start, end]\<close>.\<close>

fun final_round_scan ::
  "lib \<Rightarrow> uint64 \<Rightarrow> uint64 \<Rightarrow> byte list \<Rightarrow> Snapshot list \<Rightarrow> byte list result" where
  "final_round_scan L start end' hashes [] = Ok hashes"
| "final_round_scan L start end' hashes (s # ss) =
     (let hashes' = hashes @ NewHash L (Payload L s)
      in if Timestamp s < start then Panic
         else if Timestamp s > end' then Panic
         else final_round_scan L start end' hashes' ss)"

text \<open>\<open>snapshots[0]\<close> and \<open>snapshots[len(snapshots)-1]\<close> panic on an empty slice.\<close>

definition loadFinalRoundForNode ::
  "lib \<Rightarrow> 'w sys \<Rightarrow> 'w \<Rightarrow> hash \<Rightarrow> uint64 \<Rightarrow> FinalRound result" where
  "loadFinalRoundForNode L S w nodeIdWithNetwork number =
     (case SnapshotsReadSnapshotsForNodeRound S w nodeIdWithNetwork number of
        Inl err \<Rightarrow> Failed err
      | Inr snapshots \<Rightarrow>
          (case snapshots of
             [] \<Rightarrow> Panic
           | s0 # _ \<Rightarrow>
               (let start = Timestamp s0;
                    end' = Timestamp (last snapshots);
                    buf = PutUint64 number;
                    hashes = nodeIdWithNetwork @ buf
                in case final_round_scan L start end' hashes snapshots of
                     Panic \<Rightarrow> Panic
                   | Failed err \<Rightarrow> Failed err
                   | Ok hashes' \<Rightarrow>
                       Ok \<lparr>fNodeId = nodeIdWithNetwork, fNumber = number, fStart = start,
                           fEnd = end', fHash = NewHash L hashes'\<rparr>)))"

text \<open>
  The body of the loop of \<open>LoadRoundGraph\<close> over the node list. (\<open>graph.Print()\<close>, which
  is only logged, reads the entries just written and is left out.)
\<close>

fun load_nodes :: "lib \<Rightarrow> 'w sys \<Rightarrow> 'w \<Rightarrow> RoundGraph \<Rightarrow> hash list \<Rightarrow> RoundGraph result" where
  "load_nodes L S w graph [] = Ok graph"
| "load_nodes L S w graph (id' # ids) =
     (let graph1 = graph\<lparr>gNodes := gNodes graph @ [id']\<rparr>
      in case loadHeadRoundForNode S w id' of
           Panic \<Rightarrow> Panic
         | Failed err \<Rightarrow> Failed err
         | Ok cache \<Rightarrow>
             (let graph2 = graph1\<lparr>gCacheRound :=
                             AList.update (cNodeId cache) cache (gCacheRound graph1)\<rparr>;
                  finalRoundNumber0 = cNumber cache - 1;
                  finalRoundNumber = (if cNumber cache = 0 then cNumber cache
                                      else finalRoundNumber0);
                  graph3 = (if cNumber cache = 0
                            then graph2\<lparr>gCacheRound :=
                                   AList.update id'
                                     \<lparr>cNodeId = id', cNumber = 1, cStart = 0, cEnd = 0,
                                      cSnapshots = []\<rparr> (gCacheRound graph2)\<rparr>
                            else graph2)
              in case loadFinalRoundForNode L S w id' finalRoundNumber of
                   Panic \<Rightarrow> Panic
                 | Failed err \<Rightarrow> Failed err
                 | Ok final \<Rightarrow>
                     load_nodes L S w
                       (graph3\<lparr>gFinalRound :=
                                 AList.update (fNodeId final) final (gFinalRound graph3)\<rparr>)
                       ids))"

definition LoadRoundGraph :: "lib \<Rightarrow> 'w sys \<Rightarrow> 'w \<Rightarrow> RoundGraph result" where
  "LoadRoundGraph L S w =
     (case SnapshotsReadNodesList S w of
        Inl err \<Rightarrow> Failed err
      | Inr nodes \<Rightarrow>
          (case load_nodes L S w
                  \<lparr>gNodes = [], gCacheRound = [], gFinalRound = [], gFinalCache = []\<rparr> nodes of
             Panic \<Rightarrow> Panic
           | Failed err \<Rightarrow> Failed err
           | Ok graph \<Rightarrow> Ok (UpdateFinalCache graph)))"

definition Copy :: "CacheRound \<Rightarrow> CacheRound" where
  "Copy c = c\<lparr>cSnapshots := [] @ cSnapshots c\<rparr>"

section \<open>The node\<close>

text \<open>A consensus node (\<open>common.Node\<close>): \<open>IsAccepted()\<close>, \<open>Account.PublicSpendKey\<close>
  and \<open>Account.Hash()\<close>.\<close>

record ConsensusNode =
  IsAccepted :: bool
  PublicSpendKey :: key
  AccountHash :: hash

text \<open>
  The fields of \<open>Node\<close> that the handler uses. \<open>SnapshotsPool\<close> and
  \<open>ConsensusCache\<close> are Go maps that are only read and written by key. A
  \<open>time.Time\<close> is a number of nanoseconds since the Unix epoch.
\<close>

record Node =
  IdForNetwork :: hash
  networkId :: hash
  PrivateSpendKey :: key
  ConsensusNodes :: "ConsensusNode list"
  Graph :: RoundGraph
  SnapshotsPool :: "hash \<rightharpoonup> signature list"
  ConsensusCache :: "hash \<rightharpoonup> int"
  TopoCounter :: uint64

subsection \<open>\<open>clearConsensusSignatures\<close>\<close>

text \<open>The inner loop over \<open>node.ConsensusNodes\<close> for one signature: every accepted
  node whose key verifies the signature appends it (the loop has no \<open>break\<close>).\<close>

fun append_verified ::
  "lib \<Rightarrow> byte list \<Rightarrow> signature \<Rightarrow> signature list \<Rightarrow> ConsensusNode list \<Rightarrow> signature list" where
  "append_verified L msg sig sigs [] = sigs"
| "append_verified L msg sig sigs (cn # cns) =
     (if \<not> IsAccepted cn then append_verified L msg sig sigs cns
      else if Verify L (PublicSpendKey cn) msg sig
        then append_verified L msg sig (sigs @ [sig]) cns
        else append_verified L msg sig sigs cns)"

text \<open>The outer loop over \<open>s.Signatures\<close>; \<open>seen\<close> is the \<open>filter\<close> map.\<close>

fun clear_signatures_loop ::
  "lib \<Rightarrow> ConsensusNode list \<Rightarrow> byte list \<Rightarrow> signature list \<Rightarrow> signature set \<Rightarrow>
   signature list \<Rightarrow> signature list" where
  "clear_signatures_loop L cns msg sigs seen [] = sigs"
| "clear_signatures_loop L cns msg sigs seen (sig # rest) =
     (if sig \<in> seen then clear_signatures_loop L cns msg sigs seen rest
      else clear_signatures_loop L cns msg (append_verified L msg sig sigs cns)
             (insert sig seen) rest)"

definition clearConsensusSignatures :: "lib \<Rightarrow> Node \<Rightarrow> Snapshot \<Rightarrow> Snapshot" where
  "clearConsensusSignatures L node s =
     (let msg = Payload L s;
          sigs = clear_signatures_loop L (ConsensusNodes node) msg [] {} (Signatures s)
      in s\<lparr>Signatures := sigs\<rparr>)"

subsection \<open>\<open>verifyFinalization\<close>\<close>

definition verifyFinalization :: "Node \<Rightarrow> Snapshot \<Rightarrow> bool" where
  "verifyFinalization node s =
     (let consensusThreshold = length (ConsensusNodes node) * 2 div 3
      in length (Signatures s) > consensusThreshold)"

subsection \<open>\<open>verifyReferences\<close>\<close>

text \<open>Reading a \<open>map[crypto.Hash]uint64\<close> at a key: the zero value when absent.\<close>

definition link_at :: "(hash \<rightharpoonup> uint64) \<Rightarrow> hash \<Rightarrow> uint64" where
  "link_at links k = (case links k of None \<Rightarrow> 0 | Some v \<Rightarrow> v)"

text \<open>
  The body of the \<open>range\<close> loop over \<open>node.Graph.FinalRound\<close> once a round passed
  the \<open>continue\<close> test: record both links, read the stored links and compare. Its result
  is \<open>(links, handled, err)\<close>.
\<close>

definition check_round_links ::
  "'w sys \<Rightarrow> 'w \<Rightarrow> FinalRound \<Rightarrow> Snapshot \<Rightarrow> (hash \<rightharpoonup> uint64) \<Rightarrow> FinalRound \<Rightarrow>
   (hash \<rightharpoonup> uint64) \<times> bool \<times> error option" where
  "check_round_links S w self s links final =
     (let links1 = links(fNodeId self \<mapsto> fNumber self);
          links2 = links1(fNodeId final \<mapsto> fNumber final)
      in case SnapshotsReadRoundLink S w (NodeId s) (fNodeId self) of
           Inl err \<Rightarrow> (links2, False, Some err)
         | Inr selfLink \<Rightarrow>
             if link_at links2 (fNodeId self) < selfLink
             then (links2, True, Some (InvalidSelfLink selfLink (link_at links2 (fNodeId self))))
             else
               (case SnapshotsReadRoundLink S w (NodeId s) (fNodeId final) of
                  Inl err \<Rightarrow> (links2, False, Some err)
                | Inr finalLink \<Rightarrow>
                    if link_at links2 (fNodeId final) < finalLink
                    then (links2, True,
                          Some (InvalidFinalLink finalLink (link_at links2 (fNodeId final))))
                    else (links2, True, None)))"

text \<open>
  The \<open>range\<close> loop over \<open>node.Graph.FinalRound\<close>: the first entry that is another
  node's round with hash \<open>ref1\<close> decides, and without one the references are invalid.
\<close>

fun scan_final_rounds ::
  "'w sys \<Rightarrow> 'w \<Rightarrow> FinalRound \<Rightarrow> Snapshot \<Rightarrow> hash \<Rightarrow> (hash \<rightharpoonup> uint64) \<Rightarrow> FinalRound list \<Rightarrow>
   (hash \<rightharpoonup> uint64) \<times> bool \<times> error option" where
  "scan_final_rounds S w self s ref1 links [] = (links, True, Some InvalidReferences)"
| "scan_final_rounds S w self s ref1 links (final # rest) =
     (if fNodeId final = NodeId s \<or> fHash final \<noteq> ref1
      then scan_final_rounds S w self s ref1 links rest
      else check_round_links S w self s links final)"

definition verifyReferences ::
  "'w sys \<Rightarrow> 'w \<Rightarrow> Node \<Rightarrow> FinalRound \<Rightarrow> Snapshot \<Rightarrow>
   ((hash \<rightharpoonup> uint64) \<times> bool \<times> error option) result" where
  "verifyReferences S w node self s =
     (let links = Map.empty
      in if length (References s) \<noteq> 2
         then Ok (links, True, Some (InvalidReferenceCount (length (References s))))
         else
           (let ref0 = References s ! 0; ref1 = References s ! 1
            in if ref0 = ref1 then Ok (links, True, Some SameReferences)
               else if ref0 \<noteq> fHash self then Ok (links, True, Some InvalidSelfReference)
               else if NodeId s \<noteq> fNodeId self then Panic
               else Ok (scan_final_rounds S w self s ref1 links
                          (map snd (gFinalRound (Graph node))))))"

subsection \<open>\<open>verifySnapshot\<close>\<close>

text \<open>Reading \<open>node.SnapshotsPool\<close> at a key: the nil slice when absent.\<close>

definition pool_at :: "(hash \<rightharpoonup> signature list) \<Rightarrow> hash \<Rightarrow> signature list" where
  "pool_at pool h = (case pool h of None \<Rightarrow> [] | Some sigs \<Rightarrow> sigs)"

text \<open>The loop that appends the pooled signatures \<open>osigs\<close> not yet on the snapshot;
  \<open>seen\<close> is the \<open>filter\<close> map.\<close>

fun merge_signatures :: "signature list \<Rightarrow> signature set \<Rightarrow> signature list \<Rightarrow> signature list" where
  "merge_signatures sigs seen [] = sigs"
| "merge_signatures sigs seen (sig # osigs) =
     (if sig \<in> seen then merge_signatures sigs seen osigs
      else merge_signatures (sigs @ [sig]) (insert sig seen) osigs)"

text \<open>
  The round-advance step of \<open>verifySnapshot\<close> (the block guarded by \<open>s.Timestamp >=
  config.SnapshotRoundGap+cache.Start\<close>). It panics when a snapshot of the cache is not
  finalized; the receiver sorted by \<open>asFinal\<close> is dropped with the old cache.
\<close>

definition verify_round_advance ::
  "lib \<Rightarrow> Node \<Rightarrow> Snapshot \<Rightarrow> CacheRound \<Rightarrow> FinalRound \<Rightarrow> (CacheRound \<times> FinalRound) result" where
  "verify_round_advance L node s cache final =
     (if Timestamp s \<ge> SnapshotRoundGap L + cStart cache
      then (if length (cSnapshots cache) = 0 then Ok (cache\<lparr>cStart := Timestamp s\<rparr>, final)
            else if \<not> list_all (verifyFinalization node) (cSnapshots cache) then Panic
            else Ok (\<lparr>cNodeId = NodeId s, cNumber = cNumber cache + 1,
                      cStart = Timestamp s, cEnd = Timestamp s, cSnapshots = []\<rparr>,
                     snd (asFinal L cache)))
      else Ok (cache, final))"

text \<open>
  \<open>verifySnapshot\<close> returns \<open>(links, cache, final, err)\<close>; the model adds the node
  (whose signature pool the merge path writes) and the snapshot (whose signatures it
  extends). \<open>Copy\<close> of a missing map entry is a nil dereference.
\<close>

definition verifySnapshot ::
  "lib \<Rightarrow> 'w sys \<Rightarrow> 'w \<Rightarrow> Node \<Rightarrow> Snapshot \<Rightarrow>
   ((hash \<rightharpoonup> uint64) \<times> CacheRound \<times> FinalRound \<times> error option \<times> Node \<times> Snapshot) result" where
  "verifySnapshot L S w node s =
     (case (map_of (gCacheRound (Graph node)) (NodeId s),
            map_of (gFinalRound (Graph node)) (NodeId s)) of
        (Some c, Some f) \<Rightarrow>
          (let cache = Copy c; final = f;
               osigs = pool_at (SnapshotsPool node) (PayloadHash L s)
           in if length osigs > 0 \<or> verifyFinalization node s
              then
                (case verifyReferences S w node final s of
                   Panic \<Rightarrow> Panic
                 | Failed err \<Rightarrow> Failed err
                 | Ok (links, handled, Some err) \<Rightarrow>
                     if \<not> handled then Ok (links, cache, final, Some err, node, s)
                     else Ok (links, cache, final, None, node, s)
                 | Ok (links, handled, None) \<Rightarrow>
                     (let s' = s\<lparr>Signatures :=
                                  merge_signatures (Signatures s) (set (Signatures s)) osigs\<rparr>;
                          node' = node\<lparr>SnapshotsPool :=
                                    (SnapshotsPool node)(PayloadHash L s' \<mapsto> [] @ Signatures s')\<rparr>
                      in Ok (links, cache, final, None, node', s')))
              else
                (case verify_round_advance L node s cache final of
                   Panic \<Rightarrow> Panic
                 | Failed err \<Rightarrow> Failed err
                 | Ok (cache', final') \<Rightarrow>
                     if RoundNumber s \<noteq> cNumber cache' \<or> Timestamp s < cEnd cache'
                     then Ok (Map.empty, cache', final', None, node, s)
                     else
                       (case verifyReferences S w node final' s of
                          Panic \<Rightarrow> Panic
                        | Failed err \<Rightarrow> Failed err
                        | Ok (links, handled, Some err) \<Rightarrow>
                            if \<not> handled then Ok (links, cache', final', Some err, node, s)
                            else Ok (links, cache', final', None, node, s)
                        | Ok (links, handled, None) \<Rightarrow>
                            Ok (links, cache', final', None, node, s))))
      | _ \<Rightarrow> Panic)"

subsection \<open>\<open>signSnapshot\<close>\<close>

text \<open>
  The loop \<open>for { s.Timestamp = uint64(time.Now().UnixNano()); if s.Timestamp >
  cache.End { break }; time.Sleep(1 * time.Millisecond) }\<close>, from clock reading number
  \<open>k\<close>: the timestamp it leaves and the number of the next reading. It need not
  terminate, so not returning is the value \<open>None\<close>. (Sleeping only lets time pass,
  which the next reading shows.)
\<close>

partial_function (option) wait_for_timestamp ::
  "(nat \<Rightarrow> int) \<Rightarrow> uint64 \<Rightarrow> nat \<Rightarrow> (uint64 \<times> nat) option" where
  "wait_for_timestamp now end' k =
     (if (word_of_int (now k) :: uint64) > end' then Some (word_of_int (now k), Suc k)
      else wait_for_timestamp now end' (Suc k))"

declare wait_for_timestamp.simps [code]

text \<open>The round-advance step of \<open>signSnapshot\<close>: as in \<open>verifySnapshot\<close>, but the new
  cache is built without \<open>End\<close>.\<close>

definition sign_round_advance ::
  "lib \<Rightarrow> Node \<Rightarrow> Snapshot \<Rightarrow> CacheRound \<Rightarrow> FinalRound \<Rightarrow> (CacheRound \<times> FinalRound) result" where
  "sign_round_advance L node s cache final =
     (if Timestamp s \<ge> SnapshotRoundGap L + cStart cache
      then (if length (cSnapshots cache) = 0 then Ok (cache\<lparr>cStart := Timestamp s\<rparr>, final)
            else if \<not> list_all (verifyFinalization node) (cSnapshots cache) then Panic
            else Ok (\<lparr>cNodeId = NodeId s, cNumber = cNumber cache + 1,
                      cStart = Timestamp s, cEnd = 0, cSnapshots = []\<rparr>,
                     snd (asFinal L cache)))
      else Ok (cache, final))"

text \<open>
  The loop that chooses \<open>best\<close> among \<open>node.Graph.FinalRound\<close>. The condition is
  \<open>r.NodeId != s.NodeId && r.Start >= best.Start && r.End < uint64(time.Now().UnixNano())\<close>,
  so the clock is read only when the first two conjuncts hold.
\<close>

fun pick_best ::
  "(nat \<Rightarrow> int) \<Rightarrow> Snapshot \<Rightarrow> FinalRound \<Rightarrow> nat \<Rightarrow> FinalRound list \<Rightarrow> FinalRound \<times> nat" where
  "pick_best now s best k [] = (best, k)"
| "pick_best now s best k (r # rs) =
     (if fNodeId r \<noteq> NodeId s \<and> fStart r \<ge> fStart best
      then (if fEnd r < word_of_int (now k) then pick_best now s r (Suc k) rs
            else pick_best now s best (Suc k) rs)
      else pick_best now s best k rs)"

text \<open>
  \<open>signSnapshot\<close> returns \<open>(cache, final, err)\<close>; the model adds the snapshot after the
  call and the number of the next clock reading.
\<close>

definition signSnapshot ::
  "lib \<Rightarrow> 'w sys \<Rightarrow> Node \<Rightarrow> nat \<Rightarrow> Snapshot \<Rightarrow>
   (CacheRound \<times> FinalRound \<times> error option \<times> Snapshot \<times> nat) result option" where
  "signSnapshot L S node k s =
     (case (map_of (gCacheRound (Graph node)) (NodeId s),
            map_of (gFinalRound (Graph node)) (NodeId s)) of
        (Some c, Some f) \<Rightarrow>
          (let cache = Copy c; final = f
           in if NodeId s \<noteq> IdForNetwork node \<or> length (Signatures s) \<noteq> 0 \<or> Timestamp s \<noteq> 0
              then Some (Ok (cache, final, None, s, k))
              else
                (case wait_for_timestamp (UnixNano S) (cEnd cache) k of
                   None \<Rightarrow> None
                 | Some (t, k1) \<Rightarrow>
                     (let s1 = s\<lparr>Timestamp := t\<rparr>
                      in case sign_round_advance L node s1 cache final of
                           Panic \<Rightarrow> Some Panic
                         | Failed err \<Rightarrow> Some (Failed err)
                         | Ok (cache1, final1) \<Rightarrow>
                             (let cache2 = cache1\<lparr>cEnd := Timestamp s1\<rparr>;
                                  best0 = \<lparr>fNodeId = fNodeId final1, fNumber = 0, fStart = 0,
                                           fEnd = 0, fHash = zero_hash\<rparr>;
                                  (best, k2) = pick_best (UnixNano S) s1 best0 k1
                                                 (map snd (gFinalRound (Graph node)))
                              in if fNodeId best = fNodeId final1 then Some Panic
                                 else Some (Ok (cache2, final1, None,
                                        s1\<lparr>RoundNumber := cNumber cache2,
                                           References := [fHash final1, fHash best]\<rparr>, k2))))))
      | _ \<Rightarrow> Some Panic)"

subsection \<open>\<open>handleSnapshotInput\<close>\<close>

text \<open>\<open>node.sign\<close>: sign, normalise the signatures, store them in the pool.\<close>

definition sign :: "lib \<Rightarrow> Node \<Rightarrow> Snapshot \<Rightarrow> Node \<times> Snapshot" where
  "sign L node s =
     (let s1 = s\<lparr>Signatures := Sign L (PrivateSpendKey node) s\<rparr>;
          s2 = clearConsensusSignatures L node s1
      in (node\<lparr>SnapshotsPool := (SnapshotsPool node)(PayloadHash L s2 \<mapsto> [] @ Signatures s2)\<rparr>,
          s2))"

text \<open>The zero \<open>time.Time\<close> (1 January of year 1), read from \<open>ConsensusCache\<close> at an
  absent key.\<close>

definition zero_time :: int where
  "zero_time = - 62135596800 * 1000000000"

text \<open>
  The loop over \<open>node.ConsensusNodes\<close> that sends a self-produced snapshot. It reads
  the clock once for the throttle test and once more to stamp a send; a failed send
  returns its error at once.
\<close>

fun send_to_consensus_nodes ::
  "lib \<Rightarrow> 'w sys \<Rightarrow> Snapshot \<Rightarrow> Node \<Rightarrow> 'w \<Rightarrow> nat \<Rightarrow> ConsensusNode list \<Rightarrow>
   error option \<times> Node \<times> 'w \<times> nat" where
  "send_to_consensus_nodes L S s node w k [] = (None, node, w, k)"
| "send_to_consensus_nodes L S s node w k (cn # cns) =
     (if \<not> IsAccepted cn then send_to_consensus_nodes L S s node w k cns
      else
        (let peerId = ForNetwork L (AccountHash cn) (networkId node);
             cacheId = ForNetwork L (PayloadHash L s) peerId;
             sent = (case ConsensusCache node cacheId of None \<Rightarrow> zero_time | Some t \<Rightarrow> t)
         in if UnixNano S k < sent + sint (SnapshotRoundGap L)
            then send_to_consensus_nodes L S s node w (Suc k) cns
            else
              (case SendSnapshotMessage S w peerId s of
                 (Some err, w') \<Rightarrow> (Some err, node, w', Suc k)
               | (None, w') \<Rightarrow>
                   send_to_consensus_nodes L S s
                     (node\<lparr>ConsensusCache := (ConsensusCache node)(cacheId \<mapsto> UnixNano S (Suc k))\<rparr>)
                     w' (Suc (Suc k)) cns)))"

text \<open>The two assignments \<open>node.Graph.CacheRound[s.NodeId] = cache\<close> and
  \<open>node.Graph.FinalRound[s.NodeId] = final\<close>.\<close>

definition commit :: "Node \<Rightarrow> Snapshot \<Rightarrow> CacheRound \<Rightarrow> FinalRound \<Rightarrow> Node" where
  "commit node s cache final =
     node\<lparr>Graph := (Graph node)
            \<lparr>gCacheRound := AList.update (NodeId s) cache (gCacheRound (Graph node)),
             gFinalRound := AList.update (NodeId s) final (gFinalRound (Graph node))\<rparr>\<rparr>"

text \<open>The branch taken when \<open>verifyFinalization(s)\<close> holds: append, take the next
  topological order, write, and commit only if the write succeeded.\<close>

definition finalize_snapshot ::
  "lib \<Rightarrow> 'w sys \<Rightarrow> Node \<Rightarrow> 'w \<Rightarrow> Snapshot \<Rightarrow> (hash \<rightharpoonup> uint64) \<Rightarrow> CacheRound \<Rightarrow> FinalRound \<Rightarrow>
   error option \<times> Node \<times> 'w" where
  "finalize_snapshot L S node w s links cache final =
     (let cache' = cache\<lparr>cSnapshots := cSnapshots cache @ [s], cEnd := Timestamp s\<rparr>;
          (order, counter) = TopoCounterNext L (TopoCounter node);
          node1 = node\<lparr>TopoCounter := counter\<rparr>;
          topo = \<lparr>tSnapshot = s, TopologicalOrder = order, RoundLinks = links\<rparr>
      in case SnapshotsWriteSnapshot S w topo of
           (Some err, w') \<Rightarrow> (Some err, node1, w')
         | (None, w') \<Rightarrow> (None, commit node1 s cache' final, w'))"

text \<open>The rest of the handler for a snapshot that is not finalized: lock the inputs,
  sign, send, commit.\<close>

definition sign_and_send ::
  "lib \<Rightarrow> 'w sys \<Rightarrow> Node \<Rightarrow> 'w \<Rightarrow> nat \<Rightarrow> Snapshot \<Rightarrow> CacheRound \<Rightarrow> FinalRound \<Rightarrow>
   error option \<times> Node \<times> 'w \<times> nat \<times> Snapshot" where
  "sign_and_send L S node w k s cache final =
     (case LockInputs S w s of
        (Some err, w1) \<Rightarrow> (None, node, w1, k, s)
      | (None, w1) \<Rightarrow>
          (let (node1, s1) = sign L node s
           in if IdForNetwork node1 = NodeId s1
              then
                (case send_to_consensus_nodes L S s1 node1 w1 k (ConsensusNodes node1) of
                   (Some err, node2, w2, k2) \<Rightarrow> (Some err, node2, w2, k2, s1)
                 | (None, node2, w2, k2) \<Rightarrow> (None, commit node2 s1 cache final, w2, k2, s1))
              else
                (case SendSnapshotMessage S w1 (NodeId s1) s1 of
                   (Some err, w2) \<Rightarrow> (Some err, node1, w2, k, s1)
                 | (None, w2) \<Rightarrow> (None, commit node1 s1 cache final, w2, k, s1))))"

text \<open>The deferred \<open>node.Graph.UpdateFinalCache()\<close>, run at every return after the
  \<open>defer\<close> statement.\<close>

definition deferred :: "Node \<Rightarrow> Node" where
  "deferred node = node\<lparr>Graph := UpdateFinalCache (Graph node)\<rparr>"

text \<open>
  \<open>handleSnapshotInput\<close> returns an error; the model returns it with the node, the
  store and network state, the number of the next clock reading and the snapshot as the
  call leaves them. \<open>None\<close> is a call that never returns.
\<close>

definition handleSnapshotInput ::
  "lib \<Rightarrow> 'w sys \<Rightarrow> Node \<Rightarrow> 'w \<Rightarrow> nat \<Rightarrow> Snapshot \<Rightarrow>
   (error option \<times> Node \<times> 'w \<times> nat \<times> Snapshot) result option" where
  "handleSnapshotInput L S node w k s =
     (case SnapshotsReadSnapshotByTransactionHash S w
             (TransactionPayloadHash L (Transaction s)) of
        Inl err \<Rightarrow> Some (Ok (None, node, w, k, s))
      | Inr (Some o') \<Rightarrow> Some (Ok (None, node, w, k, s))
      | Inr None \<Rightarrow>
          (case Validate S w (Transaction s) of
             Some err \<Rightarrow> Some (Ok (None, node, w, k, s))
           | None \<Rightarrow>
               (let s1 = clearConsensusSignatures L node s
                in case signSnapshot L S node k s1 of
                     None \<Rightarrow> None
                   | Some Panic \<Rightarrow> Some Panic
                   | Some (Failed err) \<Rightarrow> Some (Failed err)
                   | Some (Ok (cache, final, Some err, s2, k2)) \<Rightarrow>
                       Some (Ok (Some err, deferred node, w, k2, s2))
                   | Some (Ok (cache, final, None, s2, k2)) \<Rightarrow>
                       (case (if NodeId s2 \<noteq> IdForNetwork node \<or> length (Signatures s2) > 1
                              then verifySnapshot L S w node s2
                              else Ok (Map.empty, cache, final, None, node, s2)) of
                          Panic \<Rightarrow> Some Panic
                        | Failed err \<Rightarrow> Some (Failed err)
                        | Ok (links, cache', final', Some err, node1, s3) \<Rightarrow>
                            Some (Ok (Some err, deferred node1, w, k2, s3))
                        | Ok (links, cache', final', None, node1, s3) \<Rightarrow>
                            if verifyFinalization node1 s3
                            then
                              (case finalize_snapshot L S node1 w s3 links cache' final' of
                                 (e, node2, w2) \<Rightarrow> Some (Ok (e, deferred node2, w2, k2, s3)))
                            else
                              (case sign_and_send L S node1 w k2 s3 cache' final' of
                                 (e, node2, w2, k3, s4) \<Rightarrow>
                                   Some (Ok (e, deferred node2, w2, k3, s4)))))))"

section \<open>Specification predicates\<close>

text \<open>
  What the kernel needs of \<open>sort.Slice\<close> with the comparison of \<open>asFinal\<close>: the result
  holds the same snapshots, in ascending order of timestamp. Nothing is said about
  the order of snapshots with equal timestamps.
\<close>

definition ascending_permutation :: "(Snapshot list \<Rightarrow> Snapshot list) \<Rightarrow> bool" where
  "ascending_permutation srt =
     (\<forall>xs. mset (srt xs) = mset xs \<and> sorted (map Timestamp (srt xs)))"

text \<open>
  The relation between a validator's two rounds: every validator the graph knows (a key
  of either map, or an entry of \<open>Nodes\<close>) has a cache round and a final round, and the
  cache round's number is the final round's plus one.
\<close>

definition linked_at :: "RoundGraph \<Rightarrow> hash \<Rightarrow> bool" where
  "linked_at g n =
     (case (map_of (gCacheRound g) n, map_of (gFinalRound g) n) of
        (Some c, Some f) \<Rightarrow> cNumber c = fNumber f + 1
      | _ \<Rightarrow> False)"

definition round_numbers_linked :: "RoundGraph \<Rightarrow> bool" where
  "round_numbers_linked g =
     (\<forall>n \<in> fst ` set (gCacheRound g) \<union> fst ` set (gFinalRound g) \<union> set (gNodes g).
        linked_at g n)"

text \<open>The synthetic cache round that \<open>LoadRoundGraph\<close> inserts for a head round 0.\<close>

definition bootstrap_cache :: "hash \<Rightarrow> CacheRound" where
  "bootstrap_cache n = \<lparr>cNodeId = n, cNumber = 1, cStart = 0, cEnd = 0, cSnapshots = []\<rparr>"

text \<open>
  The conditions of \<open>verifyReferences\<close> in the words of its specification. The
  matched round is the first final round, in the order of the scan, of a node other
  than the snapshot's whose hash is \<open>references[1]\<close>. A link regression is a stored
  round link greater than the proposed one, the links being read as the code reads
  them: the link to the snapshot's own node first, the link to the matched node only
  if the first read succeeded and showed no regression. A link read failure is the
  error of the first of these reads that fails.
\<close>

definition matched_round :: "Node \<Rightarrow> Snapshot \<Rightarrow> FinalRound option" where
  "matched_round node s =
     find (\<lambda>f. fNodeId f \<noteq> NodeId s \<and> fHash f = References s ! 1)
       (map snd (gFinalRound (Graph node)))"

definition link_regression :: "'w sys \<Rightarrow> 'w \<Rightarrow> FinalRound \<Rightarrow> Snapshot \<Rightarrow> FinalRound \<Rightarrow> bool" where
  "link_regression S w self s f =
     (case SnapshotsReadRoundLink S w (NodeId s) (fNodeId self) of
        Inl e \<Rightarrow> False
      | Inr selfLink \<Rightarrow>
          fNumber self < selfLink \<or>
          (case SnapshotsReadRoundLink S w (NodeId s) (fNodeId f) of
             Inl e \<Rightarrow> False
           | Inr finalLink \<Rightarrow> fNumber f < finalLink))"

definition link_read_failure ::
  "'w sys \<Rightarrow> 'w \<Rightarrow> FinalRound \<Rightarrow> Snapshot \<Rightarrow> FinalRound \<Rightarrow> error option" where
  "link_read_failure S w self s f =
     (case SnapshotsReadRoundLink S w (NodeId s) (fNodeId self) of
        Inl e \<Rightarrow> Some e
      | Inr selfLink \<Rightarrow>
          if fNumber self < selfLink then None
          else (case SnapshotsReadRoundLink S w (NodeId s) (fNodeId f) of
                  Inl e \<Rightarrow> Some e
                | Inr finalLink \<Rightarrow> None))"

section \<open>A small network on which the model is run\<close>

text \<open>
  Two validators \<open>[1]\<close> and \<open>[2]\<close>; this node is \<open>[1]\<close> and is the only consensus
  node. The library stand-ins are chosen so that everything evaluates: \<open>sort.Slice\<close> is
  Go's insertion sort, a hash is the hashed bytes themselves (so different inputs give
  different hashes), the payload of a snapshot is its transaction, and a signature over
  \<open>msg\<close> under key \<open>k\<close> is \<open>k @ msg\<close>. The store holds one genesis snapshot per
  validator in round 0, and every write and send succeeds.
\<close>

definition L0 :: lib where
  "L0 = \<lparr>sort_Slice = insertionSort, NewHash = (\<lambda>bs. bs), Payload = Transaction,
         PayloadHash = Transaction, TransactionPayloadHash = (\<lambda>bs. bs),
         Verify = (\<lambda>k msg sig. sig = k @ msg),
         Sign = (\<lambda>k s. Signatures s @ [k @ Transaction s]),
         ForNetwork = (\<lambda>h net. h @ net),
         SnapshotRoundGap = 3000000000,
         TopoCounterNext = (\<lambda>c. (c, c + 1))\<rparr>"

definition genesis :: "hash \<Rightarrow> Snapshot" where
  "genesis n = \<lparr>NodeId = n, Transaction = n, References = [], RoundNumber = 0,
                Timestamp = 1, Signatures = []\<rparr>"

definition S0 :: "unit sys" where
  "S0 = \<lparr>SnapshotsReadNodesList = (\<lambda>w. Inr [[1], [2]]),
         SnapshotsReadRoundMeta = (\<lambda>w n. Inr (0, 0)),
         SnapshotsReadSnapshotsForNodeRound = (\<lambda>w n r. Inr [genesis n]),
         SnapshotsReadSnapshotByTransactionHash = (\<lambda>w h. Inr None),
         SnapshotsReadRoundLink = (\<lambda>w a b. Inr 0),
         SnapshotsWriteSnapshot = (\<lambda>w t. (None, w)),
         Validate = (\<lambda>w tx. None),
         LockInputs = (\<lambda>w s. (None, w)),
         SendSnapshotMessage = (\<lambda>w p s. (None, w)),
         UnixNano = (\<lambda>k. 100 + int k)\<rparr>"

text \<open>The same store, except that writing a snapshot fails; that it holds no snapshot
  in any round; that all its round links are 5, above every final round of the small
  network.\<close>

definition S1 :: "unit sys" where
  "S1 = S0\<lparr>SnapshotsWriteSnapshot := (\<lambda>w t. (Some (External ''write failed''), w))\<rparr>"

definition S_empty :: "unit sys" where
  "S_empty = S0\<lparr>SnapshotsReadSnapshotsForNodeRound := (\<lambda>w n r. Inr [])\<rparr>"

definition S_links :: "unit sys" where
  "S_links = S0\<lparr>SnapshotsReadRoundLink := (\<lambda>w a b. Inr 5)\<rparr>"

text \<open>The graph that \<open>LoadRoundGraph\<close> builds from the store \<open>S0\<close>, and the node
  around it.\<close>

definition final0 :: "hash \<Rightarrow> FinalRound" where
  "final0 n = \<lparr>fNodeId = n, fNumber = 0, fStart = 1, fEnd = 1,
               fHash = n @ [0, 0, 0, 0, 0, 0, 0, 0] @ n\<rparr>"

definition cache1 :: "hash \<Rightarrow> CacheRound" where
  "cache1 n = \<lparr>cNodeId = n, cNumber = 1, cStart = 0, cEnd = 0, cSnapshots = []\<rparr>"

definition graph0 :: RoundGraph where
  "graph0 = \<lparr>gNodes = [[1], [2]],
             gCacheRound = [([1], cache1 [1]), ([2], cache1 [2])],
             gFinalRound = [([1], final0 [1]), ([2], final0 [2])],
             gFinalCache = [\<lparr>fNodeId = [1], fNumber = 0, fStart = 1, fEnd = 0, fHash = zero_hash\<rparr>,
                            \<lparr>fNodeId = [2], fNumber = 0, fStart = 1, fEnd = 0, fHash = zero_hash\<rparr>]\<rparr>"

definition node0 :: Node where
  "node0 = \<lparr>IdForNetwork = [1], networkId = [0], PrivateSpendKey = [7],
            ConsensusNodes = [\<lparr>IsAccepted = True, PublicSpendKey = [7], AccountHash = [1]\<rparr>],
            Graph = graph0, SnapshotsPool = Map.empty, ConsensusCache = Map.empty,
            TopoCounter = 0\<rparr>"

text \<open>The same node with a consensus list that names the same accepted key twice, and
  with one that has one accepted and two not accepted nodes.\<close>

definition node_twice :: Node where
  "node_twice = node0\<lparr>ConsensusNodes :=
     [\<lparr>IsAccepted = True, PublicSpendKey = [7], AccountHash = [1]\<rparr>,
      \<lparr>IsAccepted = True, PublicSpendKey = [7], AccountHash = [1]\<rparr>]\<rparr>"

definition node_mixed :: Node where
  "node_mixed = node0\<lparr>ConsensusNodes :=
     [\<lparr>IsAccepted = True, PublicSpendKey = [7], AccountHash = [1]\<rparr>,
      \<lparr>IsAccepted = False, PublicSpendKey = [8], AccountHash = [3]\<rparr>,
      \<lparr>IsAccepted = False, PublicSpendKey = [9], AccountHash = [4]\<rparr>]\<rparr>"

text \<open>Two snapshots of validator \<open>[1]\<close> with the same timestamp, and a cache round
  holding given snapshots.\<close>

definition snapA :: Snapshot where
  "snapA = \<lparr>NodeId = [1], Transaction = [10], References = [], RoundNumber = 1,
            Timestamp = 5, Signatures = []\<rparr>"

definition snapB :: Snapshot where
  "snapB = \<lparr>NodeId = [1], Transaction = [11], References = [], RoundNumber = 1,
            Timestamp = 5, Signatures = []\<rparr>"

definition round_of :: "Snapshot list \<Rightarrow> CacheRound" where
  "round_of ss = \<lparr>cNodeId = [1], cNumber = 1, cStart = 5, cEnd = 5, cSnapshots = ss\<rparr>"

text \<open>
  Snapshots that arrive at the node: \<open>snapS\<close> of validator \<open>[2]\<close> with one signature,
  valid under key \<open>[7]\<close>, and references to the two final rounds; \<open>snapSame\<close>, the
  same with two equal references; \<open>snapR\<close>, unsigned, of validator \<open>[2]\<close> for round 5
  and later than the round gap; \<open>snapF\<close>, fresh from this node, with no signature and
  no timestamp yet.
\<close>

definition snapS :: Snapshot where
  "snapS = \<lparr>NodeId = [2], Transaction = [10],
            References = [fHash (final0 [2]), fHash (final0 [1])],
            RoundNumber = 1, Timestamp = 50, Signatures = [[7, 10]]\<rparr>"

definition snapSame :: Snapshot where
  "snapSame = snapS\<lparr>References := [fHash (final0 [2]), fHash (final0 [2])]\<rparr>"

definition snapR :: Snapshot where
  "snapR = \<lparr>NodeId = [2], Transaction = [12], References = [], RoundNumber = 5,
            Timestamp = 4000000000, Signatures = []\<rparr>"


text \<open>
  The small network after validator \<open>[2]\<close>'s snapshot \<open>snapS\<close> was finalized into its
  cache round, and a later unsigned snapshot of \<open>[2]\<close> for round 2 that refers to the
  round this seals.
\<close>

definition graph_adv :: RoundGraph where
  "graph_adv = graph0\<lparr>gCacheRound :=
     [([1], cache1 [1]),
      ([2], \<lparr>cNodeId = [2], cNumber = 1, cStart = 0, cEnd = 50, cSnapshots = [snapS]\<rparr>)]\<rparr>"

definition node_adv :: Node where
  "node_adv = node0\<lparr>Graph := graph_adv\<rparr>"

definition snapN :: Snapshot where
  "snapN = \<lparr>NodeId = [2], Transaction = [13],
            References = [[2, 0, 0, 0, 0, 0, 0, 0, 1, 10], fHash (final0 [1])],
            RoundNumber = 2, Timestamp = 4000000000, Signatures = []\<rparr>"

text \<open>
  \<open>snapMis\<close> is \<open>snapN\<close> sent for round 7 instead of round 2; \<open>cache_adv\<close> and
  \<open>final_adv\<close> are the pair of rounds that the round-advance step makes of validator
  \<open>[2]\<close>'s cache round in \<open>graph_adv\<close>: the new cache round 2 and the sealed round 1.
\<close>

definition snapMis :: Snapshot where
  "snapMis = snapN\<lparr>RoundNumber := 7\<rparr>"

definition cache_adv :: CacheRound where
  "cache_adv = \<lparr>cNodeId = [2], cNumber = 2, cStart = 4000000000, cEnd = 4000000000,
                cSnapshots = []\<rparr>"

definition final_adv :: FinalRound where
  "final_adv = \<lparr>fNodeId = [2], fNumber = 1, fStart = 0, fEnd = 50,
                fHash = [2, 0, 0, 0, 0, 0, 0, 0, 1, 10]\<rparr>"

section \<open>Properties\<close>

subsection \<open>Sorting\<close>

lemma mset_sift: "mset (sift lt x ys) = add_mset x (mset ys)"
  by (induction ys) auto

lemma mset_insertionSort_from:
  "mset (insertionSort_from lt left xs) = mset left + mset xs"
  by (induction xs arbitrary: left) (auto simp: mset_sift)

lemma mset_insertionSort: "mset (insertionSort lt xs) = mset xs"
  by (simp add: insertionSort_def mset_insertionSort_from)

lemma set_sift: "set (sift lt x ys) = insert x (set ys)"
  by (induction ys) auto

text \<open>\<open>left\<close> is held nearest first: it is the reverse of the slice's sorted prefix.\<close>

lemma sorted_sift:
  "sorted (map Timestamp (rev ys)) \<Longrightarrow> sorted (map Timestamp (rev (sift timestamp_le x ys)))"
  by (induction ys) (auto simp: sorted_append timestamp_le_def set_sift)

lemma sorted_insertionSort_from:
  "sorted (map Timestamp (rev left)) \<Longrightarrow>
   sorted (map Timestamp (insertionSort_from timestamp_le left xs))"
  by (induction xs arbitrary: left) (auto simp: sorted_sift)

lemma sorted_insertionSort: "sorted (map Timestamp (insertionSort timestamp_le xs))"
  by (simp add: insertionSort_def sorted_insertionSort_from)

lemma insertionSort_ascending_permutation:
  "ascending_permutation (insertionSort timestamp_le)"
  by (simp add: ascending_permutation_def mset_insertionSort sorted_insertionSort)

text \<open>With pairwise distinct timestamps the sorted list depends on the multiset only.\<close>

lemma ascending_distinct_unique:
  assumes srt: "ascending_permutation srt"
    and dist: "distinct (map Timestamp xs)"
    and same: "mset xs = mset ys"
  shows "srt xs = srt ys"
proof -
  have mx: "mset (srt xs) = mset xs" and my: "mset (srt ys) = mset xs"
    using srt same by (simp_all add: ascending_permutation_def)
  have "mset (map Timestamp (srt xs)) = mset (map Timestamp xs)"
    and "mset (map Timestamp (srt ys)) = mset (map Timestamp xs)"
    using mx my by simp_all
  then have dx: "distinct (map Timestamp (srt xs))" and dy: "distinct (map Timestamp (srt ys))"
    using dist mset_eq_imp_distinct_iff by blast+
  have sets: "set (srt xs) = set (srt ys)"
    using mx my by (metis mset_eq_setD)
  have inj: "inj_on Timestamp (set (srt xs) \<union> set (srt ys))"
    using dx sets by (simp add: distinct_map)
  have sx: "sorted (map Timestamp (srt xs))" and sy: "sorted (map Timestamp (srt ys))"
    using srt by (simp_all add: ascending_permutation_def)
  show ?thesis
    by (rule map_sorted_distinct_set_unique [OF inj sx dx sy dy sets])
qed

lemma asFinal_hash_order_independent:
  assumes "ascending_permutation (sort_Slice L timestamp_le)"
    and "distinct (map Timestamp (cSnapshots c))"
    and "mset (cSnapshots c) = mset (cSnapshots c')"
    and "cNodeId c = cNodeId c'" and "cNumber c = cNumber c'"
  shows "fHash (snd (asFinal L c)) = fHash (snd (asFinal L c'))"
  using assms ascending_distinct_unique [of "sort_Slice L timestamp_le" "cSnapshots c" "cSnapshots c'"]
  by (simp add: asFinal_def Let_def)

subsection \<open>Claims about \<open>asFinal\<close>\<close>

text \<open>
  C1. The claim: \<open>asFinal\<close> sorts the snapshots by ascending timestamp, stably, and
  hashes \<open>node_id @ BE64(number) @\<close> the payload hashes in that order, so two cache
  rounds with the same \<open>(node_id, number)\<close> and the same multiset of snapshots get the
  same hash whatever the insertion order.

  The code calls \<open>sort.Slice\<close>, which is not stable, with the non-strict comparison
  \<open>Timestamp <= Timestamp\<close>. On a short slice Go runs its insertion sort, which moves an
  element left past every neighbour for which the comparison holds, so two snapshots
  with equal timestamps are swapped. Evaluated on the cache rounds \<open>[A, B]\<close> and
  \<open>[B, A]\<close> of two snapshots with timestamp 5: the multisets are equal, each list
  comes out reversed, and the two hashed byte strings differ. (With pairwise distinct
  timestamps the hash is independent of the insertion order:
  \<open>asFinal_hash_order_independent\<close>.)
\<close>

theorem asFinal_ties_follow_insertion_order:
  "mset (cSnapshots (round_of [snapA, snapB])) = mset (cSnapshots (round_of [snapB, snapA]))
   \<and> cNodeId (round_of [snapA, snapB]) = cNodeId (round_of [snapB, snapA])
   \<and> cNumber (round_of [snapA, snapB]) = cNumber (round_of [snapB, snapA])
   \<and> Timestamp snapA = Timestamp snapB
   \<and> cSnapshots (fst (asFinal L0 (round_of [snapA, snapB]))) = [snapB, snapA]
   \<and> cSnapshots (fst (asFinal L0 (round_of [snapB, snapA]))) = [snapA, snapB]
   \<and> fHash (snd (asFinal L0 (round_of [snapA, snapB]))) = [1, 0, 0, 0, 0, 0, 0, 0, 1, 11, 10]
   \<and> fHash (snd (asFinal L0 (round_of [snapB, snapA]))) = [1, 0, 0, 0, 0, 0, 0, 0, 1, 10, 11]
   \<and> fHash (snd (asFinal L0 (round_of [snapA, snapB])))
       \<noteq> fHash (snd (asFinal L0 (round_of [snapB, snapA])))"
  by (simp add: asFinal_def L0_def insertionSort_def timestamp_le_def snapA_def snapB_def
      round_of_def PutUint64_def)

text \<open>
  C10. \<open>asFinal\<close> sorts the receiver's \<open>Snapshots\<close> in place: after the call the
  receiver holds the same snapshots in ascending order of timestamp, its \<open>NodeId\<close>,
  \<open>Number\<close>, \<open>Start\<close> and \<open>End\<close> are unchanged, and the returned \<open>FinalRound\<close> carries
  those four fields. The only assumption is that \<open>sort.Slice\<close> sorts.
\<close>

theorem asFinal_sorts_receiver_keeps_fields:
  assumes "ascending_permutation (sort_Slice L timestamp_le)"
  shows "mset (cSnapshots (fst (asFinal L c))) = mset (cSnapshots c)
       \<and> sorted (map Timestamp (cSnapshots (fst (asFinal L c))))
       \<and> cNodeId (fst (asFinal L c)) = cNodeId c
       \<and> cNumber (fst (asFinal L c)) = cNumber c
       \<and> cStart (fst (asFinal L c)) = cStart c
       \<and> cEnd (fst (asFinal L c)) = cEnd c
       \<and> fNodeId (snd (asFinal L c)) = cNodeId c
       \<and> fNumber (snd (asFinal L c)) = cNumber c
       \<and> fStart (snd (asFinal L c)) = cStart c
       \<and> fEnd (snd (asFinal L c)) = cEnd c"
  using assms by (simp add: asFinal_def Let_def ascending_permutation_def)

theorem asFinal_sorts_receiver_keeps_fields_witness:
  "ascending_permutation (sort_Slice L0 timestamp_le)
   \<and> cSnapshots (fst (asFinal L0 (round_of [snapA\<lparr>Timestamp := 9\<rparr>, snapB])))
       = [snapB, snapA\<lparr>Timestamp := 9\<rparr>]
   \<and> mset (cSnapshots (fst (asFinal L0 (round_of [snapA\<lparr>Timestamp := 9\<rparr>, snapB]))))
       = mset [snapA\<lparr>Timestamp := 9\<rparr>, snapB]
   \<and> sorted (map Timestamp
        (cSnapshots (fst (asFinal L0 (round_of [snapA\<lparr>Timestamp := 9\<rparr>, snapB])))))
   \<and> cEnd (fst (asFinal L0 (round_of [snapA\<lparr>Timestamp := 9\<rparr>, snapB]))) = 5
   \<and> fEnd (snd (asFinal L0 (round_of [snapA\<lparr>Timestamp := 9\<rparr>, snapB]))) = 5"
proof -
  have c: "ascending_permutation (sort_Slice L0 timestamp_le)"
    by (simp add: L0_def insertionSort_ascending_permutation)
  have e: "cSnapshots (fst (asFinal L0 (round_of [snapA\<lparr>Timestamp := 9\<rparr>, snapB])))
            = [snapB, snapA\<lparr>Timestamp := 9\<rparr>]"
    by (simp add: asFinal_def L0_def insertionSort_def timestamp_le_def snapA_def snapB_def
        round_of_def)
  show ?thesis
    using c e
      asFinal_sorts_receiver_keeps_fields [OF c, of "round_of [snapA\<lparr>Timestamp := 9\<rparr>, snapB]"]
    by (simp add: round_of_def)
qed

subsection \<open>Claims about signatures and the threshold\<close>

lemma append_verified_set:
  "set (append_verified L msg sig sigs cns) \<subseteq> insert sig (set sigs)"
proof (induction cns arbitrary: sigs)
  case Nil
  show ?case by auto
next
  case (Cons cn cns)
  show ?case
    using Cons.IH [of sigs] Cons.IH [of "sigs @ [sig]"] by auto
qed

lemma append_verified_new:
  "sig \<in> set (append_verified L msg sig sigs cns) \<Longrightarrow> sig \<notin> set sigs \<Longrightarrow>
   list_ex (\<lambda>cn. IsAccepted cn \<and> Verify L (PublicSpendKey cn) msg sig) cns"
  by (induction cns arbitrary: sigs) (auto split: if_splits)

text \<open>What does hold of the code: every signature it keeps is one of the input's and
  verifies under the key of an accepted consensus node.\<close>

lemma clear_signatures_loop_sound:
  "x \<in> set (clear_signatures_loop L cns msg sigs seen rest) \<Longrightarrow>
   x \<in> set sigs \<or>
   (x \<in> set rest \<and> list_ex (\<lambda>cn. IsAccepted cn \<and> Verify L (PublicSpendKey cn) msg x) cns)"
proof (induction rest arbitrary: sigs seen)
  case Nil
  then show ?case by simp
next
  case (Cons sig rest)
  show ?case
  proof (cases "sig \<in> seen")
    case True
    with Cons show ?thesis by auto
  next
    case False
    with Cons.prems have
      "x \<in> set (clear_signatures_loop L cns msg (append_verified L msg sig sigs cns)
                  (insert sig seen) rest)"
      by simp
    from Cons.IH [OF this] show ?thesis
    proof
      assume a: "x \<in> set (append_verified L msg sig sigs cns)"
      show ?thesis
      proof (cases "x \<in> set sigs")
        case True
        then show ?thesis by simp
      next
        case False
        with a append_verified_set [of L msg sig sigs cns] have "x = sig" by auto
        with a False append_verified_new [of sig L msg sigs cns] show ?thesis by simp
      qed
    next
      assume "x \<in> set rest \<and> list_ex (\<lambda>cn. IsAccepted cn \<and> Verify L (PublicSpendKey cn) msg x) cns"
      then show ?thesis by simp
    qed
  qed
qed

lemma clearConsensusSignatures_sound:
  "x \<in> set (Signatures (clearConsensusSignatures L node s)) \<Longrightarrow>
   x \<in> set (Signatures s) \<and>
   list_ex (\<lambda>cn. IsAccepted cn \<and> Verify L (PublicSpendKey cn) (Payload L s) x)
     (ConsensusNodes node)"
  using clear_signatures_loop_sound [of x L "ConsensusNodes node" "Payload L s" "[]" "{}" "Signatures s"]
  by (simp add: clearConsensusSignatures_def Let_def)

text \<open>
  C5. The claim: \<open>clearConsensusSignatures\<close> leaves a list without duplicates that
  holds, in input order and exactly once each, the input signatures that verify under
  some accepted validator's key.

  The loop over the consensus nodes appends the signature for every accepted node whose
  key verifies it and does not stop at the first. With a consensus list that names the
  same accepted key twice, the single valid signature of the input comes out twice (and
  the one signature then counts as two for finalization).
\<close>

theorem clearConsensusSignatures_appends_once_per_verifying_node:
  "Signatures snapS = [[7, 10]]
   \<and> Verify L0 [7] (Payload L0 snapS) [7, 10]
   \<and> Signatures (clearConsensusSignatures L0 node_twice snapS) = [[7, 10], [7, 10]]
   \<and> \<not> distinct (Signatures (clearConsensusSignatures L0 node_twice snapS))
   \<and> \<not> verifyFinalization node_twice snapS
   \<and> verifyFinalization node_twice (clearConsensusSignatures L0 node_twice snapS)"
  by (simp add: clearConsensusSignatures_def L0_def node_twice_def node0_def snapS_def
      verifyFinalization_def Let_def)

text \<open>
  C6. The claim: \<open>verifyFinalization(s)\<close> is true iff the number of signatures
  exceeds two thirds of the accepted validator set, computed as
  \<open>len(s.Signatures) > 2 * |validators| / 3\<close>.

  The code takes \<open>len(node.ConsensusNodes)\<close>, the whole consensus list whether a node is
  accepted or not. Counterexample: one accepted and two not accepted consensus nodes,
  one signature; over the accepted set the threshold is \<open>2 * 1 / 3 = 0\<close> and the
  snapshot would be final, the code computes \<open>3 * 2 / 3 = 2\<close> and says no.
\<close>

theorem verifyFinalization_accepted_set_counterexample:
  "\<not> (verifyFinalization node_mixed snapS
       \<longleftrightarrow> length (Signatures snapS)
             > 2 * length (filter IsAccepted (ConsensusNodes node_mixed)) div 3)"
  by (simp add: verifyFinalization_def node_mixed_def node0_def snapS_def)

text \<open>
  C6 as amended: \<open>verifyFinalization(s)\<close> is true iff the number of signatures exceeds
  two thirds of the number of consensus nodes listed, accepted or not; the integer
  test \<open>len > 2 * n / 3\<close> is the exact test \<open>3 * len > 2 * n\<close>.
\<close>

theorem verifyFinalization_two_thirds_of_consensus_nodes:
  "(verifyFinalization node s
      \<longleftrightarrow> length (Signatures s) > 2 * length (ConsensusNodes node) div 3)
   \<and> (verifyFinalization node s
      \<longleftrightarrow> 3 * length (Signatures s) > 2 * length (ConsensusNodes node))"
proof -
  have "length (ConsensusNodes node) * 2 div 3 < length (Signatures s)
        \<longleftrightarrow> 2 * length (ConsensusNodes node) < 3 * length (Signatures s)"
    by presburger
  then show ?thesis
    by (simp add: verifyFinalization_def Let_def mult.commute)
qed

subsection \<open>Loading the round graph\<close>

lemma head_round_scan_fields:
  "head_round_scan r ss = Ok r' \<Longrightarrow>
   cNodeId r' = cNodeId r \<and> cNumber r' = cNumber r \<and> cStart r' = cStart r
   \<and> cSnapshots r' = cSnapshots r"
  by (induction ss arbitrary: r) (auto split: if_splits)

lemma loadHeadRoundForNode_Ok:
  assumes "loadHeadRoundForNode S w n = Ok c"
  shows "cNodeId c = n \<and> SnapshotsReadRoundMeta S w n = Inr (cNumber c, cStart c)"
proof (cases "SnapshotsReadRoundMeta S w n")
  case (Inl e)
  with assms show ?thesis by (simp add: loadHeadRoundForNode_def)
next
  case (Inr meta)
  obtain m0 m1 where meta: "meta = (m0, m1)" by (cases meta)
  show ?thesis
  proof (cases "SnapshotsReadSnapshotsForNodeRound S w n m0")
    case (Inl e)
    with assms Inr meta show ?thesis by (simp add: loadHeadRoundForNode_def)
  next
    case rd: (Inr snaps)
    have "head_round_scan
            \<lparr>cNodeId = n, cNumber = m0, cStart = m1, cEnd = 0, cSnapshots = snaps\<rparr> snaps = Ok c"
      using assms Inr meta rd by (simp add: loadHeadRoundForNode_def)
    from head_round_scan_fields [OF this] Inr meta show ?thesis by simp
  qed
qed

lemma final_round_scan_Ok:
  "final_round_scan L st en hs ss = Ok hs' \<Longrightarrow> hs' = append_payload_hashes L hs ss"
  by (induction ss arbitrary: hs) (auto simp: Let_def split: if_splits)

lemma loadFinalRoundForNode_Ok:
  assumes "loadFinalRoundForNode L S w n num = Ok f"
  shows "\<exists>s0 ss. SnapshotsReadSnapshotsForNodeRound S w n num = Inr (s0 # ss)
           \<and> f = \<lparr>fNodeId = n, fNumber = num, fStart = Timestamp s0,
                   fEnd = Timestamp (last (s0 # ss)),
                   fHash = NewHash L (append_payload_hashes L (n @ PutUint64 num) (s0 # ss))\<rparr>"
proof (cases "SnapshotsReadSnapshotsForNodeRound S w n num")
  case (Inl e)
  with assms show ?thesis by (simp add: loadFinalRoundForNode_def)
next
  case (Inr snaps)
  show ?thesis
  proof (cases snaps)
    case Nil
    with assms Inr show ?thesis by (simp add: loadFinalRoundForNode_def)
  next
    case (Cons s0 ss)
    show ?thesis
    proof (cases "final_round_scan L (Timestamp s0) (Timestamp (last (s0 # ss)))
                    (n @ PutUint64 num) (s0 # ss)")
      case Panic
      with assms Inr Cons show ?thesis
        by (simp add: loadFinalRoundForNode_def Let_def del: final_round_scan.simps last.simps)
    next
      case (Failed e)
      with assms Inr Cons show ?thesis
        by (simp add: loadFinalRoundForNode_def Let_def del: final_round_scan.simps last.simps)
    next
      case (Ok hs)
      from final_round_scan_Ok [OF Ok] assms Inr Cons Ok show ?thesis
        by (simp add: loadFinalRoundForNode_def Let_def
            del: final_round_scan.simps last.simps append_payload_hashes.simps)
    qed
  qed
qed

text \<open>One round of the loop of \<open>LoadRoundGraph\<close>, as an equation on its result.\<close>

lemma load_nodes_Cons_Ok:
  assumes "load_nodes L S w g (n # ids) = Ok g'"
  shows "\<exists>cache final.
           loadHeadRoundForNode S w n = Ok cache
         \<and> loadFinalRoundForNode L S w n (if cNumber cache = 0 then 0 else cNumber cache - 1)
             = Ok final
         \<and> load_nodes L S w
             (g\<lparr>gNodes := gNodes g @ [n],
                gCacheRound := AList.update n
                  (if cNumber cache = 0 then bootstrap_cache n else cache) (gCacheRound g),
                gFinalRound := AList.update n final (gFinalRound g)\<rparr>) ids = Ok g'"
proof -
  obtain cache where c: "loadHeadRoundForNode S w n = Ok cache"
    using assms by (auto simp: Let_def split: result.splits)
  then have cn: "cNodeId cache = n"
    by (simp add: loadHeadRoundForNode_Ok)
  obtain final where
    f: "loadFinalRoundForNode L S w n (if cNumber cache = 0 then 0 else cNumber cache - 1)
          = Ok final"
    using assms c by (auto simp: Let_def split: result.splits if_splits)
  then have fn: "fNodeId final = n"
    using loadFinalRoundForNode_Ok [OF f] by auto
  show ?thesis
    using assms c f cn fn
    by (auto simp: Let_def bootstrap_cache_def split: if_splits)
qed

lemma load_nodes_other:
  "load_nodes L S w g ids = Ok g' \<Longrightarrow> n \<notin> set ids \<Longrightarrow>
   map_of (gCacheRound g') n = map_of (gCacheRound g) n
   \<and> map_of (gFinalRound g') n = map_of (gFinalRound g) n"
proof (induction ids arbitrary: g)
  case Nil
  then show ?case by simp
next
  case (Cons a ids)
  from load_nodes_Cons_Ok [OF Cons.prems(1)] obtain cache final where
    "load_nodes L S w
       (g\<lparr>gNodes := gNodes g @ [a],
          gCacheRound := AList.update a
            (if cNumber cache = 0 then bootstrap_cache a else cache) (gCacheRound g),
          gFinalRound := AList.update a final (gFinalRound g)\<rparr>) ids = Ok g'"
    by blast
  from Cons.IH [OF this] Cons.prems(2) show ?case
    by (simp add: update_conv')
qed

lemma load_nodes_entry:
  "load_nodes L S w g ids = Ok g' \<Longrightarrow> n \<in> set ids \<Longrightarrow>
   \<exists>cache final.
      loadHeadRoundForNode S w n = Ok cache
    \<and> loadFinalRoundForNode L S w n (if cNumber cache = 0 then 0 else cNumber cache - 1)
        = Ok final
    \<and> map_of (gCacheRound g') n = Some (if cNumber cache = 0 then bootstrap_cache n else cache)
    \<and> map_of (gFinalRound g') n = Some final"
proof (induction ids arbitrary: g)
  case Nil
  then show ?case by simp
next
  case (Cons a ids)
  from load_nodes_Cons_Ok [OF Cons.prems(1)] obtain cache final where
    c: "loadHeadRoundForNode S w a = Ok cache" and
    f: "loadFinalRoundForNode L S w a (if cNumber cache = 0 then 0 else cNumber cache - 1)
          = Ok final" and
    rest: "load_nodes L S w
       (g\<lparr>gNodes := gNodes g @ [a],
          gCacheRound := AList.update a
            (if cNumber cache = 0 then bootstrap_cache a else cache) (gCacheRound g),
          gFinalRound := AList.update a final (gFinalRound g)\<rparr>) ids = Ok g'"
    by blast
  show ?case
  proof (cases "n \<in> set ids")
    case True
    from Cons.IH [OF rest True] show ?thesis .
  next
    case False
    with Cons.prems(2) have na: "n = a" by simp
    from load_nodes_other [OF rest False] c f na show ?thesis
      by (simp add: update_conv')
  qed
qed

lemma load_nodes_keys:
  "load_nodes L S w g ids = Ok g' \<Longrightarrow>
   gNodes g' = gNodes g @ ids
   \<and> fst ` set (gCacheRound g') = fst ` set (gCacheRound g) \<union> set ids
   \<and> fst ` set (gFinalRound g') = fst ` set (gFinalRound g) \<union> set ids"
proof (induction ids arbitrary: g)
  case Nil
  then show ?case by simp
next
  case (Cons a ids)
  from load_nodes_Cons_Ok [OF Cons.prems(1)] obtain cache final where
    "load_nodes L S w
       (g\<lparr>gNodes := gNodes g @ [a],
          gCacheRound := AList.update a
            (if cNumber cache = 0 then bootstrap_cache a else cache) (gCacheRound g),
          gFinalRound := AList.update a final (gFinalRound g)\<rparr>) ids = Ok g'"
    by blast
  from Cons.IH [OF this] show ?case
    by (auto simp: dom_update)
qed

lemma LoadRoundGraph_Ok:
  assumes "LoadRoundGraph L S w = Ok g"
  shows "\<exists>nodes g0. SnapshotsReadNodesList S w = Inr nodes
           \<and> load_nodes L S w
               \<lparr>gNodes = [], gCacheRound = [], gFinalRound = [], gFinalCache = []\<rparr> nodes = Ok g0
           \<and> g = UpdateFinalCache g0"
  using assms by (auto simp: LoadRoundGraph_def split: sum.splits result.splits)

lemma LoadRoundGraph_linked:
  assumes "LoadRoundGraph L S w = Ok g"
  shows "round_numbers_linked g"
proof -
  from LoadRoundGraph_Ok [OF assms] obtain nodes g0 where
    ld: "load_nodes L S w
           \<lparr>gNodes = [], gCacheRound = [], gFinalRound = [], gFinalCache = []\<rparr> nodes = Ok g0"
    and g: "g = UpdateFinalCache g0"
    by blast
  have keys: "gNodes g0 = nodes" "fst ` set (gCacheRound g0) = set nodes"
    "fst ` set (gFinalRound g0) = set nodes"
    using load_nodes_keys [OF ld] by simp_all
  have "linked_at g n" if "n \<in> set nodes" for n
  proof -
    from load_nodes_entry [OF ld that] obtain cache final where
      f: "loadFinalRoundForNode L S w n (if cNumber cache = 0 then 0 else cNumber cache - 1)
            = Ok final"
      and mc: "map_of (gCacheRound g0) n = Some (if cNumber cache = 0 then bootstrap_cache n else cache)"
      and mf: "map_of (gFinalRound g0) n = Some final"
      by blast
    from loadFinalRoundForNode_Ok [OF f]
    have "fNumber final = (if cNumber cache = 0 then 0 else cNumber cache - 1)"
      by auto
    then show ?thesis
      using mc mf g by (simp add: linked_at_def UpdateFinalCache_def bootstrap_cache_def)
  qed
  then show ?thesis
    using keys g by (simp add: round_numbers_linked_def UpdateFinalCache_def)
qed

text \<open>
  C8. The claim: for a validator whose stored head round number is 0,
  \<open>LoadRoundGraph\<close> inserts a synthetic empty cache round at number 1 and sets the final
  round to the bootstrap round 0 with \<open>start = end = 0\<close> and a deterministic empty hash.

  The cache round is as claimed. The final round is not synthetic: it is loaded from the
  store's snapshots of round 0 like any other round. Counterexample: with one genesis
  snapshot of timestamp 1 stored in round 0, the final round has \<open>Start = End = 1\<close>
  and a hash that covers the genesis payload; and when the store holds no snapshot of
  round 0 the load does not return a round at all (\<open>snapshots[0]\<close> is out of range).
\<close>

theorem LoadRoundGraph_bootstrap_final_counterexample:
  "SnapshotsReadRoundMeta S0 () [1] = Inr (0, 0)
   \<and> LoadRoundGraph L0 S0 () = Ok graph0
   \<and> map_of (gCacheRound graph0) [1] = Some (bootstrap_cache [1])
   \<and> map_of (gFinalRound graph0) [1] = Some (final0 [1])
   \<and> fStart (final0 [1]) = 1 \<and> fEnd (final0 [1]) = 1
   \<and> fHash (final0 [1]) \<noteq> NewHash L0 ([1] @ PutUint64 0)
   \<and> SnapshotsReadRoundMeta S_empty () [1] = Inr (0, 0)
   \<and> LoadRoundGraph L0 S_empty () = Panic"
  by (simp add: LoadRoundGraph_def L0_def S0_def S_empty_def graph0_def loadHeadRoundForNode_def
      loadFinalRoundForNode_def genesis_def final0_def cache1_def bootstrap_cache_def
      UpdateFinalCache_def PutUint64_def Let_def)

text \<open>
  C8 as amended: for a validator of the node list whose stored head round number is 0,
  a successful \<open>LoadRoundGraph\<close> leaves the synthetic empty cache round at number 1, and
  the final round is round 0 as stored: the store holds at least one snapshot for it,
  \<open>Start\<close> and \<open>End\<close> are the timestamps of the first and the last of them, and the hash
  is that of \<open>node_id @ BE64(0) @\<close> their payload hashes.
\<close>

theorem LoadRoundGraph_bootstrap:
  assumes "LoadRoundGraph L S w = Ok g"
    and "SnapshotsReadNodesList S w = Inr nodes"
    and "n \<in> set nodes"
    and "SnapshotsReadRoundMeta S w n = Inr (0, start)"
  shows "map_of (gCacheRound g) n
           = Some \<lparr>cNodeId = n, cNumber = 1, cStart = 0, cEnd = 0, cSnapshots = []\<rparr>
       \<and> (\<exists>s0 ss. SnapshotsReadSnapshotsForNodeRound S w n 0 = Inr (s0 # ss)
            \<and> map_of (gFinalRound g) n
                = Some \<lparr>fNodeId = n, fNumber = 0, fStart = Timestamp s0,
                        fEnd = Timestamp (last (s0 # ss)),
                        fHash = NewHash L
                          (append_payload_hashes L (n @ PutUint64 0) (s0 # ss))\<rparr>)"
proof -
  from LoadRoundGraph_Ok [OF assms(1)] assms(2) obtain g0 where
    ld: "load_nodes L S w
           \<lparr>gNodes = [], gCacheRound = [], gFinalRound = [], gFinalCache = []\<rparr> nodes = Ok g0"
    and g: "g = UpdateFinalCache g0"
    by auto
  from load_nodes_entry [OF ld assms(3)] obtain cache final where
    c: "loadHeadRoundForNode S w n = Ok cache" and
    f: "loadFinalRoundForNode L S w n (if cNumber cache = 0 then 0 else cNumber cache - 1)
          = Ok final" and
    mc: "map_of (gCacheRound g0) n = Some (if cNumber cache = 0 then bootstrap_cache n else cache)" and
    mf: "map_of (gFinalRound g0) n = Some final"
    by blast
  from loadHeadRoundForNode_Ok [OF c] assms(4) have z: "cNumber cache = 0"
    by simp
  from f z have f0: "loadFinalRoundForNode L S w n 0 = Ok final" by simp
  from loadFinalRoundForNode_Ok [OF f0] mc mf z g show ?thesis
    by (auto simp: UpdateFinalCache_def bootstrap_cache_def)
qed

theorem LoadRoundGraph_bootstrap_witness:
  "LoadRoundGraph L0 S0 () = Ok graph0
   \<and> SnapshotsReadNodesList S0 () = Inr [[1], [2]]
   \<and> SnapshotsReadRoundMeta S0 () [2] = Inr (0, 0)
   \<and> map_of (gCacheRound graph0) [2]
       = Some \<lparr>cNodeId = [2], cNumber = 1, cStart = 0, cEnd = 0, cSnapshots = []\<rparr>
   \<and> SnapshotsReadSnapshotsForNodeRound S0 () [2] 0 = Inr [genesis [2]]
   \<and> map_of (gFinalRound graph0) [2]
       = Some \<lparr>fNodeId = [2], fNumber = 0, fStart = 1, fEnd = 1,
               fHash = [2, 0, 0, 0, 0, 0, 0, 0, 0, 2]\<rparr>"
proof -
  have l: "LoadRoundGraph L0 S0 () = Ok graph0"
    by (simp add: LoadRoundGraph_def L0_def S0_def graph0_def loadHeadRoundForNode_def
        loadFinalRoundForNode_def genesis_def final0_def cache1_def
        UpdateFinalCache_def PutUint64_def Let_def)
  have r: "SnapshotsReadNodesList S0 () = Inr [[1], [2]]"
    and m: "SnapshotsReadRoundMeta S0 () [2] = Inr (0, 0)"
    by (simp_all add: S0_def)
  have i: "[2] \<in> set [[1], [2 :: byte]]" by simp
  from LoadRoundGraph_bootstrap [OF l r i m] l r m show ?thesis
    by (simp add: S0_def genesis_def graph0_def final0_def cache1_def)
qed

subsection \<open>\<open>verifyReferences\<close>\<close>

lemma scan_final_rounds_find:
  "scan_final_rounds S w self s ref1 links finals =
     (case find (\<lambda>f. fNodeId f \<noteq> NodeId s \<and> fHash f = ref1) finals of
        None \<Rightarrow> (links, True, Some InvalidReferences)
      | Some f \<Rightarrow> check_round_links S w self s links f)"
  by (induction finals) auto

text \<open>The outcome of the link checks for a round of another node than \<open>self\<close>'s.\<close>

lemma check_round_links_cases:
  assumes "fNodeId f \<noteq> fNodeId self"
    and "check_round_links S w self s Map.empty f = (links, handled, err)"
  shows "links = [fNodeId self \<mapsto> fNumber self, fNodeId f \<mapsto> fNumber f]
       \<and> (handled \<and> err \<noteq> None \<longleftrightarrow> link_regression S w self s f)
       \<and> (\<not> handled \<longleftrightarrow> link_read_failure S w self s f \<noteq> None)
       \<and> (\<not> handled \<longrightarrow> err = link_read_failure S w self s f)
       \<and> (err = None \<longrightarrow> handled)"
proof -
  have l1: "link_at [fNodeId self \<mapsto> fNumber self, fNodeId f \<mapsto> fNumber f] (fNodeId self)
              = fNumber self"
    using assms(1) by (simp add: link_at_def)
  have l2: "link_at [fNodeId self \<mapsto> fNumber self, fNodeId f \<mapsto> fNumber f] (fNodeId f)
              = fNumber f"
    by (simp add: link_at_def)
  show ?thesis
  proof (cases "SnapshotsReadRoundLink S w (NodeId s) (fNodeId self)")
    case (Inl e)
    with assms(2) show ?thesis
      by (auto simp: check_round_links_def link_regression_def link_read_failure_def Let_def)
  next
    case self_read: (Inr selfLink)
    show ?thesis
    proof (cases "fNumber self < selfLink")
      case True
      with assms(2) self_read l1 show ?thesis
        by (auto simp: check_round_links_def link_regression_def link_read_failure_def Let_def)
    next
      case False
      show ?thesis
      proof (cases "SnapshotsReadRoundLink S w (NodeId s) (fNodeId f)")
        case (Inl e)
        with assms(2) self_read False l1 show ?thesis
          by (auto simp: check_round_links_def link_regression_def link_read_failure_def Let_def)
      next
        case (Inr finalLink)
        with assms(2) self_read False l1 l2 show ?thesis
          by (auto simp: check_round_links_def link_regression_def link_read_failure_def Let_def
              split: if_splits)
      qed
    qed
  qed
qed

text \<open>
  C3. Whenever \<open>verifyReferences\<close> returns (it panics only on a snapshot that passed
  the first three tests with a node id other than \<open>self\<close>'s):
  \<^item> it returns an error with \<open>handled = true\<close> exactly when the reference list does
    not have exactly 2 entries, or the two references are equal, or \<open>references[0]\<close>
    is not \<open>self.Hash\<close>, or no final round of another node has hash \<open>references[1]\<close>,
    or a stored round link exceeds the proposed link;
  \<^item> it returns \<open>handled = false\<close> only when reading a round link failed, and then the
    error is the store's;
  \<^item> on success \<open>links\<close> maps \<open>self.NodeId\<close> to \<open>self.Number\<close> and the matched
    node to its final round's number.
\<close>

theorem verifyReferences_outcomes:
  assumes "verifyReferences S w node self s = Ok (links, handled, err)"
  shows "(handled \<and> err \<noteq> None \<longleftrightarrow>
            length (References s) \<noteq> 2
          \<or> References s ! 0 = References s ! 1
          \<or> References s ! 0 \<noteq> fHash self
          \<or> matched_round node s = None
          \<or> (\<exists>f. matched_round node s = Some f \<and> link_regression S w self s f))
       \<and> (\<not> handled \<longrightarrow>
            (\<exists>f e. matched_round node s = Some f
                  \<and> link_read_failure S w self s f = Some e \<and> err = Some e))
       \<and> (err = None \<longrightarrow>
            handled \<and>
            (\<exists>f. matched_round node s = Some f
                \<and> links = [fNodeId self \<mapsto> fNumber self, fNodeId f \<mapsto> fNumber f]))"
proof (cases "length (References s) \<noteq> 2 \<or> References s ! 0 = References s ! 1
              \<or> References s ! 0 \<noteq> fHash self")
  case True
  with assms show ?thesis
    by (auto simp: verifyReferences_def Let_def split: if_splits)
next
  case False
  with assms have same: "NodeId s = fNodeId self"
    and scan: "scan_final_rounds S w self s (References s ! 1) Map.empty
                 (map snd (gFinalRound (Graph node))) = (links, handled, err)"
    by (auto simp: verifyReferences_def Let_def split: if_splits)
  show ?thesis
  proof (cases "matched_round node s")
    case None
    with scan False show ?thesis
      by (auto simp: scan_final_rounds_find matched_round_def)
  next
    case (Some f)
    then have other: "fNodeId f \<noteq> fNodeId self"
      using same by (auto simp: matched_round_def dest: find_Some_iff [THEN iffD1])
    from scan Some have chk: "check_round_links S w self s Map.empty f = (links, handled, err)"
      by (simp add: scan_final_rounds_find matched_round_def)
    from check_round_links_cases [OF other chk] False Some show ?thesis
      by auto
  qed
qed

theorem verifyReferences_outcomes_witness:
  "verifyReferences S0 () node0 (final0 [2]) snapS
      = Ok ([[2] \<mapsto> 0, [1] \<mapsto> 0], True, None)
   \<and> matched_round node0 snapS = Some (final0 [1])
   \<and> \<not> link_regression S0 () (final0 [2]) snapS (final0 [1])
   \<and> verifyReferences S0 () node0 (final0 [2]) snapSame
      = Ok (Map.empty, True, Some SameReferences)
   \<and> References snapSame ! 0 = References snapSame ! 1
   \<and> verifyReferences S_links () node0 (final0 [2]) snapS
      = Ok ([[2] \<mapsto> 0, [1] \<mapsto> 0], True, Some (InvalidSelfLink 5 0))
   \<and> link_regression S_links () (final0 [2]) snapS (final0 [1])"
proof -
  have a: "verifyReferences S0 () node0 (final0 [2]) snapS
             = Ok ([[2] \<mapsto> 0, [1] \<mapsto> 0], True, None)"
    by (simp add: verifyReferences_def check_round_links_def link_at_def S0_def node0_def
        graph0_def final0_def snapS_def Let_def)
  have b: "verifyReferences S0 () node0 (final0 [2]) snapSame
             = Ok (Map.empty, True, Some SameReferences)"
    by (simp add: verifyReferences_def snapSame_def snapS_def final0_def Let_def)
  have c: "verifyReferences S_links () node0 (final0 [2]) snapS
             = Ok ([[2] \<mapsto> 0, [1] \<mapsto> 0], True, Some (InvalidSelfLink 5 0))"
    by (simp add: verifyReferences_def check_round_links_def link_at_def S_links_def S0_def
        node0_def graph0_def final0_def snapS_def Let_def)
  have m: "matched_round node0 snapS = Some (final0 [1])"
    by (simp add: matched_round_def node0_def graph0_def final0_def snapS_def)
  from verifyReferences_outcomes [OF a] verifyReferences_outcomes [OF b]
    verifyReferences_outcomes [OF c] a b c m
  show ?thesis
    by (simp add: snapSame_def)
qed

subsection \<open>\<open>signSnapshot\<close>\<close>







lemma asFinal_number: "fNumber (snd (asFinal L c)) = cNumber c"
  by (simp add: asFinal_def Let_def)

lemma sign_round_advance_cases:
  "sign_round_advance L node s cache final = Panic
   \<or> (\<exists>cache2 final2. sign_round_advance L node s cache final = Ok (cache2, final2))"
  by (simp add: sign_round_advance_def)

lemma sign_round_advance_linked:
  "sign_round_advance L node s cache final = Ok (cache2, final2) \<Longrightarrow>
   cNumber cache = fNumber final + 1 \<Longrightarrow> cNumber cache2 = fNumber final2 + 1"
  by (auto simp: sign_round_advance_def asFinal_number split: if_splits)

text \<open>
  What \<open>signSnapshot\<close> does once it acts, given the timestamp \<open>t\<close> and the reading
  number \<open>k1\<close> that the wait loop left.
\<close>

lemma signSnapshot_acting:
  assumes c: "map_of (gCacheRound (Graph node)) (NodeId s) = Some c"
    and f: "map_of (gFinalRound (Graph node)) (NodeId s) = Some f"
    and act: "NodeId s = IdForNetwork node" "Signatures s = []" "Timestamp s = 0"
    and w: "wait_for_timestamp (UnixNano S) (cEnd c) k = Some (t, k1)"
  shows "signSnapshot L S node k s =
     (case sign_round_advance L node (s\<lparr>Timestamp := t\<rparr>) (Copy c) f of
        Panic \<Rightarrow> Some Panic
      | Failed err \<Rightarrow> Some (Failed err)
      | Ok (cache2, final2) \<Rightarrow>
          (let best0 = \<lparr>fNodeId = fNodeId final2, fNumber = 0, fStart = 0, fEnd = 0,
                         fHash = zero_hash\<rparr>;
               bk = pick_best (UnixNano S) (s\<lparr>Timestamp := t\<rparr>) best0 k1
                      (map snd (gFinalRound (Graph node)))
           in if fNodeId (fst bk) = fNodeId final2 then Some Panic
              else Some (Ok (cache2\<lparr>cEnd := t\<rparr>, final2, None,
                     s\<lparr>Timestamp := t, RoundNumber := cNumber cache2,
                        References := [fHash final2, fHash (fst bk)]\<rparr>, snd bk))))"
  using c f act w
  by (simp add: signSnapshot_def Let_def Copy_def split_beta split: result.splits)



subsection \<open>The handler and the round graph\<close>

lemma Copy_same: "Copy c = c"
  by (simp add: Copy_def)

lemma verify_round_advance_linked:
  "verify_round_advance L node s cache final = Ok (cache2, final2) \<Longrightarrow>
   cNumber cache = fNumber final + 1 \<Longrightarrow> cNumber cache2 = fNumber final2 + 1"
  by (auto simp: verify_round_advance_def asFinal_number split: if_splits)

text \<open>\<open>verifySnapshot\<close> never writes the graph; what it returns is the node's current
  pair of rounds or the pair of its round-advance step.\<close>

lemma verifySnapshot_Ok:
  assumes res: "verifySnapshot L S w node s = Ok (links, cache, final, e, node1, s1)"
  shows "\<exists>c f. map_of (gCacheRound (Graph node)) (NodeId s) = Some c
             \<and> map_of (gFinalRound (Graph node)) (NodeId s) = Some f
             \<and> Graph node1 = Graph node
             \<and> ConsensusNodes node1 = ConsensusNodes node
             \<and> IdForNetwork node1 = IdForNetwork node
             \<and> NodeId s1 = NodeId s
             \<and> ((cache, final) = (c, f)
                 \<or> verify_round_advance L node s c f = Ok (cache, final))"
proof -
  obtain c where c: "map_of (gCacheRound (Graph node)) (NodeId s) = Some c"
    using res by (cases "map_of (gCacheRound (Graph node)) (NodeId s)")
      (simp_all add: verifySnapshot_def)
  obtain f where f: "map_of (gFinalRound (Graph node)) (NodeId s) = Some f"
    using res c by (cases "map_of (gFinalRound (Graph node)) (NodeId s)")
      (simp_all add: verifySnapshot_def)
  have goal: "Graph node1 = Graph node
             \<and> ConsensusNodes node1 = ConsensusNodes node
             \<and> IdForNetwork node1 = IdForNetwork node
             \<and> NodeId s1 = NodeId s
             \<and> ((cache, final) = (c, f)
                 \<or> verify_round_advance L node s c f = Ok (cache, final))"
  proof (cases "length (pool_at (SnapshotsPool node) (PayloadHash L s)) > 0
                \<or> verifyFinalization node s")
    case merge: True
    show ?thesis
    proof (cases "verifyReferences S w node f s")
      case Panic
      with res c f merge show ?thesis by (simp add: verifySnapshot_def Let_def Copy_same)
    next
      case (Failed err)
      with res c f merge show ?thesis by (simp add: verifySnapshot_def Let_def Copy_same)
    next
      case (Ok x)
      obtain l h eo where x: "x = (l, h, eo)" by (cases x)
      show ?thesis
      proof (cases eo)
        case None
        with res c f merge Ok x show ?thesis
          by (auto simp: verifySnapshot_def Let_def Copy_same)
      next
        case (Some err)
        with res c f merge Ok x show ?thesis
          by (auto simp: verifySnapshot_def Let_def Copy_same split: if_splits)
      qed
    qed
  next
    case advance: False
    show ?thesis
    proof (cases "verify_round_advance L node s c f")
      case Panic
      with res c f advance show ?thesis by (simp add: verifySnapshot_def Let_def Copy_same)
    next
      case (Failed err)
      with res c f advance show ?thesis by (simp add: verifySnapshot_def Let_def Copy_same)
    next
      case adv: (Ok y)
      obtain c2 f2 where y: "y = (c2, f2)" by (cases y)
      show ?thesis
      proof (cases "RoundNumber s \<noteq> cNumber c2 \<or> Timestamp s < cEnd c2")
        case True
        with res c f advance adv y show ?thesis
          by (auto simp: verifySnapshot_def Let_def Copy_same)
      next
        case aligned: False
        show ?thesis
        proof (cases "verifyReferences S w node f2 s")
          case Panic
          with res c f advance adv y aligned show ?thesis
            by (simp add: verifySnapshot_def Let_def Copy_same)
        next
          case (Failed err)
          with res c f advance adv y aligned show ?thesis
            by (simp add: verifySnapshot_def Let_def Copy_same)
        next
          case (Ok x)
          obtain l h eo where x: "x = (l, h, eo)" by (cases x)
          show ?thesis
          proof (cases eo)
            case None
            with res c f advance adv y aligned Ok x show ?thesis
              by (auto simp: verifySnapshot_def Let_def Copy_same)
          next
            case (Some err)
            with res c f advance adv y aligned Ok x show ?thesis
              by (auto simp: verifySnapshot_def Let_def Copy_same split: if_splits)
          qed
        qed
      qed
    qed
  qed
  with c f show ?thesis by blast
qed

lemma signSnapshot_Ok:
  assumes res: "signSnapshot L S node k s = Some (Ok (cache, final, e, s1, k1))"
  shows "\<exists>c f. map_of (gCacheRound (Graph node)) (NodeId s) = Some c
             \<and> map_of (gFinalRound (Graph node)) (NodeId s) = Some f
             \<and> e = None \<and> NodeId s1 = NodeId s
             \<and> (cNumber c = fNumber f + 1 \<longrightarrow> cNumber cache = fNumber final + 1)"
proof -
  obtain c where c: "map_of (gCacheRound (Graph node)) (NodeId s) = Some c"
    using res by (cases "map_of (gCacheRound (Graph node)) (NodeId s)")
      (simp_all add: signSnapshot_def)
  obtain f where f: "map_of (gFinalRound (Graph node)) (NodeId s) = Some f"
    using res c by (cases "map_of (gFinalRound (Graph node)) (NodeId s)")
      (simp_all add: signSnapshot_def)
  have "e = None \<and> NodeId s1 = NodeId s
        \<and> (cNumber c = fNumber f + 1 \<longrightarrow> cNumber cache = fNumber final + 1)"
  proof (cases "NodeId s \<noteq> IdForNetwork node \<or> length (Signatures s) \<noteq> 0 \<or> Timestamp s \<noteq> 0")
    case True
    with res c f show ?thesis
      by (auto simp: signSnapshot_def Let_def Copy_same)
  next
    case False
    then have act: "NodeId s = IdForNetwork node" "Signatures s = []" "Timestamp s = 0"
      by simp_all
    obtain t k0 where w: "wait_for_timestamp (UnixNano S) (cEnd c) k = Some (t, k0)"
      using res c f act
      by (cases "wait_for_timestamp (UnixNano S) (cEnd c) k")
        (auto simp: signSnapshot_def Let_def Copy_same)
    note eq = signSnapshot_acting [OF c f act w, of L]
    obtain c2 f2 where
      adv: "sign_round_advance L node (s\<lparr>Timestamp := t\<rparr>) (Copy c) f = Ok (c2, f2)"
      using res eq sign_round_advance_cases [of L node "s\<lparr>Timestamp := t\<rparr>" "Copy c" f]
      by auto
    have "cache = c2\<lparr>cEnd := t\<rparr> \<and> final = f2 \<and> e = None \<and> NodeId s1 = NodeId s"
      using res eq adv by (auto simp: Let_def split: if_splits)
    with sign_round_advance_linked [OF adv] show ?thesis
      by (simp add: Copy_same)
  qed
  with c f show ?thesis by blast
qed

lemma clearConsensusSignatures_NodeId:
  "NodeId (clearConsensusSignatures L node s) = NodeId s"
  by (simp add: clearConsensusSignatures_def Let_def)

lemma sign_fields:
  "sign L node s = (node1, s1) \<Longrightarrow>
   Graph node1 = Graph node \<and> NodeId s1 = NodeId s \<and> IdForNetwork node1 = IdForNetwork node"
  by (auto simp: sign_def Let_def clearConsensusSignatures_NodeId)

lemma send_to_consensus_nodes_graph:
  "send_to_consensus_nodes L S s node w k cns = (e, node', w', k') \<Longrightarrow> Graph node' = Graph node"
proof (induction cns arbitrary: node w k)
  case Nil
  then show ?case by simp
next
  case (Cons cn cns)
  show ?case
  proof (cases "IsAccepted cn")
    case False
    with Cons.prems have "send_to_consensus_nodes L S s node w k cns = (e, node', w', k')"
      by simp
    from Cons.IH [OF this] show ?thesis .
  next
    case acc: True
    define peerId where "peerId = ForNetwork L (AccountHash cn) (networkId node)"
    define cacheId where "cacheId = ForNetwork L (PayloadHash L s) peerId"
    define sent where
      "sent = (case ConsensusCache node cacheId of None \<Rightarrow> zero_time | Some t \<Rightarrow> t)"
    show ?thesis
    proof (cases "UnixNano S k < sent + sint (SnapshotRoundGap L)")
      case True
      with Cons.prems acc
      have "send_to_consensus_nodes L S s node w (Suc k) cns = (e, node', w', k')"
        by (simp add: Let_def peerId_def cacheId_def sent_def)
      from Cons.IH [OF this] show ?thesis .
    next
      case due: False
      obtain eo w1 where snd: "SendSnapshotMessage S w peerId s = (eo, w1)"
        by (cases "SendSnapshotMessage S w peerId s")
      show ?thesis
      proof (cases eo)
        case (Some err)
        with Cons.prems acc due snd show ?thesis
          by (simp add: Let_def peerId_def cacheId_def sent_def)
      next
        case None
        with Cons.prems acc due snd
        have "send_to_consensus_nodes L S s
                (node\<lparr>ConsensusCache := (ConsensusCache node)(cacheId \<mapsto> UnixNano S (Suc k))\<rparr>)
                w1 (Suc (Suc k)) cns = (e, node', w', k')"
          by (simp add: Let_def peerId_def cacheId_def sent_def)
        from Cons.IH [OF this] show ?thesis by simp
      qed
    qed
  qed
qed

lemma commit_Graph:
  "Graph (commit node s cache final) =
     (Graph node)\<lparr>gCacheRound := AList.update (NodeId s) cache (gCacheRound (Graph node)),
                  gFinalRound := AList.update (NodeId s) final (gFinalRound (Graph node))\<rparr>"
  by (simp add: commit_def)

lemma commit_Graph_cong:
  "Graph node1 = Graph node \<Longrightarrow> NodeId s1 = NodeId s \<Longrightarrow>
   Graph (commit node1 s1 cache final) = Graph (commit node s cache final)"
  by (simp add: commit_Graph)

text \<open>A failed write returns before the commit.\<close>

lemma finalize_snapshot_graph:
  assumes "finalize_snapshot L S node w s links cache final = (e, node', w')"
  shows "(e \<noteq> None \<and> Graph node' = Graph node)
       \<or> (e = None \<and> Graph node' =
            Graph (commit node s (cache\<lparr>cSnapshots := cSnapshots cache @ [s],
                                        cEnd := Timestamp s\<rparr>) final))"
proof -
  obtain order counter where n: "TopoCounterNext L (TopoCounter node) = (order, counter)"
    by (cases "TopoCounterNext L (TopoCounter node)")
  obtain eo w1 where wr: "SnapshotsWriteSnapshot S w
      \<lparr>tSnapshot = s, TopologicalOrder = order, RoundLinks = links\<rparr> = (eo, w1)"
    by (cases "SnapshotsWriteSnapshot S w
      \<lparr>tSnapshot = s, TopologicalOrder = order, RoundLinks = links\<rparr>")
  show ?thesis
  proof (cases eo)
    case None
    with assms n wr show ?thesis
      by (auto simp: finalize_snapshot_def Let_def commit_Graph)
  next
    case (Some err)
    with assms n wr show ?thesis
      by (auto simp: finalize_snapshot_def Let_def)
  qed
qed

lemma sign_and_send_graph:
  assumes "sign_and_send L S node w k s cache final = (e, node', w', k', s')"
  shows "Graph node' = Graph node
       \<or> (e = None \<and> Graph node' = Graph (commit node s cache final))"
proof -
  obtain lo w1 where lk: "LockInputs S w s = (lo, w1)" by (cases "LockInputs S w s")
  show ?thesis
  proof (cases lo)
    case (Some err)
    with assms lk show ?thesis by (simp add: sign_and_send_def)
  next
    case locked: None
    obtain node1 s1 where sg: "sign L node s = (node1, s1)" by (cases "sign L node s")
    note sf = sign_fields [OF sg]
    show ?thesis
    proof (cases "IdForNetwork node1 = NodeId s1")
      case self: True
      obtain eo node2 w2 k2 where
        sd: "send_to_consensus_nodes L S s1 node1 w1 k (ConsensusNodes node1) = (eo, node2, w2, k2)"
        by (cases "send_to_consensus_nodes L S s1 node1 w1 k (ConsensusNodes node1)") auto
      from send_to_consensus_nodes_graph [OF sd] sf have g2: "Graph node2 = Graph node" by simp
      show ?thesis
      proof (cases eo)
        case None
        with assms lk locked sg self sd have "e = None" "node' = commit node2 s1 cache final"
          by (auto simp: sign_and_send_def)
        with commit_Graph_cong [OF g2, of s1 s cache final] sf show ?thesis by simp
      next
        case (Some err)
        with assms lk locked sg self sd have "node' = node2"
          by (auto simp: sign_and_send_def)
        with g2 show ?thesis by simp
      qed
    next
      case relay: False
      obtain eo w2 where sd: "SendSnapshotMessage S w1 (NodeId s1) s1 = (eo, w2)"
        by (cases "SendSnapshotMessage S w1 (NodeId s1) s1")
      show ?thesis
      proof (cases eo)
        case None
        with assms lk locked sg relay sd have "e = None" "node' = commit node1 s1 cache final"
          by (auto simp: sign_and_send_def)
        with commit_Graph_cong [of node1 node s1 s cache final] sf show ?thesis by simp
      next
        case (Some err)
        with assms lk locked sg relay sd have "node' = node1"
          by (auto simp: sign_and_send_def)
        with sf show ?thesis by simp
      qed
    qed
  qed
qed

lemma deferred_Graph: "Graph (deferred node) = UpdateFinalCache (Graph node)"
  by (simp add: deferred_def)

text \<open>
  Every return of the handler leaves the graph as it was (up to the refreshed final
  cache), or, on a return without error, with the one pair of rounds of \<open>s.NodeId\<close>
  replaced by a pair that \<open>signSnapshot\<close> or \<open>verifySnapshot\<close> proposed.
\<close>

lemma handleSnapshotInput_graph:
  assumes res: "handleSnapshotInput L S node w k s = Some (Ok (e, node', w', k', s'))"
  shows "Graph node' = Graph node \<or> Graph node' = UpdateFinalCache (Graph node)
       \<or> (e = None \<and>
          (\<exists>c f cache final.
              map_of (gCacheRound (Graph node)) (NodeId s) = Some c
            \<and> map_of (gFinalRound (Graph node)) (NodeId s) = Some f
            \<and> (cNumber c = fNumber f + 1 \<longrightarrow> cNumber cache = fNumber final + 1)
            \<and> Graph node' = UpdateFinalCache (Graph (commit node s cache final))))"
proof (cases "SnapshotsReadSnapshotByTransactionHash S w (TransactionPayloadHash L (Transaction s))")
  case (Inl err)
  with res show ?thesis by (simp add: handleSnapshotInput_def)
next
  case (Inr found)
  show ?thesis
  proof (cases found)
    case (Some o')
    with res Inr show ?thesis by (simp add: handleSnapshotInput_def)
  next
    case fresh: None
    show ?thesis
    proof (cases "Validate S w (Transaction s)")
      case (Some err)
      with res Inr fresh show ?thesis by (simp add: handleSnapshotInput_def)
    next
      case valid: None
      define s1 where "s1 = clearConsensusSignatures L node s"
      have n1: "NodeId s1 = NodeId s"
        by (simp add: s1_def clearConsensusSignatures_NodeId)
      note unfold = handleSnapshotInput_def Let_def
      obtain cache final eo s2 k2 where
        sg: "signSnapshot L S node k s1 = Some (Ok (cache, final, eo, s2, k2))"
      proof (cases "signSnapshot L S node k s1")
        case None
        with res Inr fresh valid show ?thesis by (simp add: unfold s1_def)
      next
        case (Some r)
        show ?thesis
        proof (cases r)
          case Panic
          with res Inr fresh valid Some show ?thesis by (simp add: unfold s1_def)
        next
          case (Failed err)
          with res Inr fresh valid Some show ?thesis by (simp add: unfold s1_def)
        next
          case (Ok y)
          obtain a b c d e where "y = (a, b, c, d, e)" by (cases y)
          with Some Ok that show ?thesis by simp
        qed
      qed
      from signSnapshot_Ok [OF sg] n1 obtain c f where
        c: "map_of (gCacheRound (Graph node)) (NodeId s) = Some c" and
        f: "map_of (gFinalRound (Graph node)) (NodeId s) = Some f" and
        eo: "eo = None" and n2: "NodeId s2 = NodeId s" and
        l2: "cNumber c = fNumber f + 1 \<longrightarrow> cNumber cache = fNumber final + 1"
        by auto
      define v where
        "v = (if NodeId s2 \<noteq> IdForNetwork node \<or> length (Signatures s2) > 1
              then verifySnapshot L S w node s2
              else Ok (Map.empty, cache, final, None, node, s2))"
      have res2: "(case v of
             Panic \<Rightarrow> Some Panic
           | Failed err \<Rightarrow> Some (Failed err)
           | Ok (links, cache', final', Some err, node1, s3) \<Rightarrow>
               Some (Ok (Some err, deferred node1, w, k2, s3))
           | Ok (links, cache', final', None, node1, s3) \<Rightarrow>
               if verifyFinalization node1 s3
               then
                 (case finalize_snapshot L S node1 w s3 links cache' final' of
                    (e, node2, w2) \<Rightarrow> Some (Ok (e, deferred node2, w2, k2, s3)))
               else
                 (case sign_and_send L S node1 w k2 s3 cache' final' of
                    (e, node2, w2, k3, s4) \<Rightarrow>
                      Some (Ok (e, deferred node2, w2, k3, s4))))
           = Some (Ok (e, node', w', k', s'))"
        using res Inr fresh valid sg eo unfolding v_def
        by (simp add: unfold s1_def [symmetric])
      obtain links cache' final' eo' node1 s3 where
        vz: "v = Ok (links, cache', final', eo', node1, s3)"
      proof (cases v)
        case Panic
        with res2 show ?thesis by simp
      next
        case (Failed err)
        with res2 show ?thesis by simp
      next
        case (Ok z)
        obtain a b c d e g where "z = (a, b, c, d, e, g)" by (cases z)
        with Ok that show ?thesis by simp
      qed
      have vprops: "Graph node1 = Graph node \<and> NodeId s3 = NodeId s
                  \<and> (cNumber c = fNumber f + 1 \<longrightarrow> cNumber cache' = fNumber final' + 1)"
      proof (cases "NodeId s2 \<noteq> IdForNetwork node \<or> length (Signatures s2) > 1")
        case True
        with vz have "verifySnapshot L S w node s2 = Ok (links, cache', final', eo', node1, s3)"
          by (simp add: v_def)
        from verifySnapshot_Ok [OF this] c f n2 verify_round_advance_linked [of L node s2 c f cache' final']
        show ?thesis by auto
      next
        case False
        with vz l2 n2 show ?thesis by (simp add: v_def)
      qed
      show ?thesis
      proof (cases eo')
        case (Some err)
        with res2 vz have "node' = deferred node1" by simp
        with vprops show ?thesis by (simp add: deferred_Graph)
      next
        case noerr: None
        show ?thesis
        proof (cases "verifyFinalization node1 s3")
          case True
          obtain e2 node2 w2 where
            fin: "finalize_snapshot L S node1 w s3 links cache' final' = (e2, node2, w2)"
            by (cases "finalize_snapshot L S node1 w s3 links cache' final'")
          with res2 vz noerr True have r: "e = e2" "node' = deferred node2" by simp_all
          from finalize_snapshot_graph [OF fin] show ?thesis
          proof
            assume "e2 \<noteq> None \<and> Graph node2 = Graph node1"
            with r vprops show ?thesis by (simp add: deferred_Graph)
          next
            assume a: "e2 = None \<and> Graph node2 =
              Graph (commit node1 s3 (cache'\<lparr>cSnapshots := cSnapshots cache' @ [s3],
                                              cEnd := Timestamp s3\<rparr>) final')"
            have "Graph node' = UpdateFinalCache
                    (Graph (commit node s (cache'\<lparr>cSnapshots := cSnapshots cache' @ [s3],
                                              cEnd := Timestamp s3\<rparr>) final'))"
              using a r vprops
                commit_Graph_cong [of node1 node s3 s
                  "cache'\<lparr>cSnapshots := cSnapshots cache' @ [s3], cEnd := Timestamp s3\<rparr>" final']
              by (simp add: deferred_Graph)
            moreover have "cNumber c = fNumber f + 1 \<longrightarrow>
                cNumber (cache'\<lparr>cSnapshots := cSnapshots cache' @ [s3], cEnd := Timestamp s3\<rparr>)
                  = fNumber final' + 1"
              using vprops by simp
            ultimately show ?thesis using a r c f by blast
          qed
        next
          case False
          obtain e2 node2 w2 k3 s4 where
            snd: "sign_and_send L S node1 w k2 s3 cache' final' = (e2, node2, w2, k3, s4)"
            by (cases "sign_and_send L S node1 w k2 s3 cache' final'") auto
          with res2 vz noerr False have r: "e = e2" "node' = deferred node2" by simp_all
          from sign_and_send_graph [OF snd] show ?thesis
          proof
            assume "Graph node2 = Graph node1"
            with r vprops show ?thesis by (simp add: deferred_Graph)
          next
            assume a: "e2 = None \<and> Graph node2 = Graph (commit node1 s3 cache' final')"
            have "Graph node' = UpdateFinalCache (Graph (commit node s cache' final'))"
              using a r vprops commit_Graph_cong [of node1 node s3 s cache' final']
              by (simp add: deferred_Graph)
            with a r c f vprops show ?thesis by blast
          qed
        qed
      qed
    qed
  qed
qed

lemma linked_at_UpdateFinalCache: "linked_at (UpdateFinalCache g) n = linked_at g n"
  by (simp add: linked_at_def UpdateFinalCache_def)

lemma round_numbers_linked_UpdateFinalCache:
  "round_numbers_linked (UpdateFinalCache g) = round_numbers_linked g"
  by (simp add: round_numbers_linked_def linked_at_UpdateFinalCache) (simp add: UpdateFinalCache_def)

lemma commit_linked:
  assumes inv: "round_numbers_linked (Graph node)"
    and new: "cNumber cache = fNumber final + 1"
  shows "round_numbers_linked (Graph (commit node s cache final))"
proof -
  have "linked_at (Graph (commit node s cache final)) n"
    if "n = NodeId s \<or> n \<in> fst ` set (gCacheRound (Graph node))
          \<union> fst ` set (gFinalRound (Graph node)) \<union> set (gNodes (Graph node))" for n
  proof (cases "n = NodeId s")
    case True
    with new show ?thesis by (simp add: linked_at_def commit_Graph update_conv')
  next
    case False
    with that inv have "linked_at (Graph node) n" by (simp add: round_numbers_linked_def)
    with False show ?thesis by (simp add: linked_at_def commit_Graph update_conv')
  qed
  then show ?thesis
    by (auto simp: round_numbers_linked_def commit_Graph dom_update)
qed

lemma linked_lookup:
  assumes "round_numbers_linked g"
    and "map_of (gCacheRound g) n = Some c" and "map_of (gFinalRound g) n = Some f"
  shows "cNumber c = fNumber f + 1"
proof -
  have "n \<in> fst ` set (gCacheRound g)"
    using assms(2) by (metis map_of_SomeD fst_conv image_eqI)
  with assms(1) have "linked_at g n" by (simp add: round_numbers_linked_def)
  with assms(2,3) show ?thesis by (simp add: linked_at_def)
qed

lemma handleSnapshotInput_linked:
  assumes inv: "round_numbers_linked (Graph node)"
    and res: "handleSnapshotInput L S node w k s = Some (Ok (e, node', w', k', s'))"
  shows "round_numbers_linked (Graph node')"
  using handleSnapshotInput_graph [OF res]
proof (elim disjE conjE exE)
  assume "Graph node' = Graph node"
  with inv show ?thesis by simp
next
  assume "Graph node' = UpdateFinalCache (Graph node)"
  with inv show ?thesis by (simp add: round_numbers_linked_UpdateFinalCache)
next
  fix c f cache final
  assume c: "map_of (gCacheRound (Graph node)) (NodeId s) = Some c"
    and f: "map_of (gFinalRound (Graph node)) (NodeId s) = Some f"
    and l: "cNumber c = fNumber f + 1 \<longrightarrow> cNumber cache = fNumber final + 1"
    and g: "Graph node' = UpdateFinalCache (Graph (commit node s cache final))"
  from linked_lookup [OF inv c f] l have "cNumber cache = fNumber final + 1" by simp
  from commit_linked [OF inv this] g show ?thesis
    by (simp add: round_numbers_linked_UpdateFinalCache)
qed

text \<open>An error return leaves both maps of the graph as they were.\<close>

lemma handleSnapshotInput_error_uncommitted:
  assumes "handleSnapshotInput L S node w k s = Some (Ok (Some err, node', w', k', s'))"
  shows "gCacheRound (Graph node') = gCacheRound (Graph node)
       \<and> gFinalRound (Graph node') = gFinalRound (Graph node)
       \<and> gNodes (Graph node') = gNodes (Graph node)"
  using handleSnapshotInput_graph [OF assms]
  by (auto simp: UpdateFinalCache_def)

text \<open>
  C2. For every validator in the round graph, \<open>cache_round[N].number =
  final_round[N].number + 1\<close>: after \<open>LoadRoundGraph\<close> (where a head round 0 gives the
  synthetic cache round 1 over final round 0), and after every \<open>handleSnapshotInput\<close>
  that returns, with or without error, from a graph where it held. The pair of rounds
  that \<open>signSnapshot\<close> and \<open>verifySnapshot\<close> return keeps the relation,
  \<open>verifySnapshot\<close> leaves the graph alone, and the commit of such a pair keeps it for
  the whole graph. Numbers are \<open>uint64\<close>, so \<open>+ 1\<close> wraps.
\<close>

theorem round_numbers_stay_linked:
  "(\<forall>g. LoadRoundGraph L S w = Ok g \<longrightarrow> round_numbers_linked g)
   \<and> (round_numbers_linked (Graph node) \<longrightarrow>
        (\<forall>e node' w' k' s'.
            handleSnapshotInput L S node w k s = Some (Ok (e, node', w', k', s')) \<longrightarrow>
            round_numbers_linked (Graph node'))
      \<and> (\<forall>cache final e s1 k1.
            signSnapshot L S node k s = Some (Ok (cache, final, e, s1, k1)) \<longrightarrow>
            cNumber cache = fNumber final + 1)
      \<and> (\<forall>links cache final e node1 s1.
            verifySnapshot L S w node s = Ok (links, cache, final, e, node1, s1) \<longrightarrow>
            cNumber cache = fNumber final + 1 \<and> Graph node1 = Graph node)
      \<and> (\<forall>cache final.
            cNumber cache = fNumber final + 1 \<longrightarrow>
            round_numbers_linked (Graph (commit node s cache final))))"
proof (intro conjI allI impI)
  fix g
  assume "LoadRoundGraph L S w = Ok g"
  then show "round_numbers_linked g" by (rule LoadRoundGraph_linked)
next
  fix e node' w' k' s'
  assume "round_numbers_linked (Graph node)"
    and "handleSnapshotInput L S node w k s = Some (Ok (e, node', w', k', s'))"
  then show "round_numbers_linked (Graph node')" by (rule handleSnapshotInput_linked)
next
  fix cache final e s1 k1
  assume inv: "round_numbers_linked (Graph node)"
    and res: "signSnapshot L S node k s = Some (Ok (cache, final, e, s1, k1))"
  from signSnapshot_Ok [OF res] obtain c f where
    "map_of (gCacheRound (Graph node)) (NodeId s) = Some c"
    "map_of (gFinalRound (Graph node)) (NodeId s) = Some f"
    "cNumber c = fNumber f + 1 \<longrightarrow> cNumber cache = fNumber final + 1"
    by blast
  with linked_lookup [OF inv] show "cNumber cache = fNumber final + 1" by blast
next
  fix links cache final e node1 s1
  assume inv: "round_numbers_linked (Graph node)"
    and res: "verifySnapshot L S w node s = Ok (links, cache, final, e, node1, s1)"
  from verifySnapshot_Ok [OF res] obtain c f where
    c: "map_of (gCacheRound (Graph node)) (NodeId s) = Some c" and
    f: "map_of (gFinalRound (Graph node)) (NodeId s) = Some f" and
    g: "Graph node1 = Graph node" and
    r: "(cache, final) = (c, f) \<or> verify_round_advance L node s c f = Ok (cache, final)"
    by blast
  from linked_lookup [OF inv c f] r verify_round_advance_linked [of L node s c f cache final]
  have "cNumber cache = fNumber final + 1" by auto
  then show "cNumber cache = fNumber final + 1" .
  from g show "Graph node1 = Graph node" .
next
  fix cache :: CacheRound and final :: FinalRound
  assume "round_numbers_linked (Graph node)" and "cNumber cache = fNumber final + 1"
  then show "round_numbers_linked (Graph (commit node s cache final))"
    by (rule commit_linked)
qed

theorem round_numbers_stay_linked_witness:
  "LoadRoundGraph L0 S0 () = Ok graph0
   \<and> round_numbers_linked graph0
   \<and> round_numbers_linked (Graph node_adv)
   \<and> (\<exists>node' w' k' s'.
         handleSnapshotInput L0 S0 node_adv () 0 snapN = Some (Ok (None, node', w', k', s'))
       \<and> map (\<lambda>(n, c). (n, cNumber c)) (gCacheRound (Graph node')) = [([1], 1), ([2], 2)]
       \<and> map (\<lambda>(n, f). (n, fNumber f)) (gFinalRound (Graph node')) = [([1], 0), ([2], 1)]
       \<and> round_numbers_linked (Graph node'))"
proof -
  note th = round_numbers_stay_linked [of L0 S0 "()" node_adv 0 snapN]
  have l: "LoadRoundGraph L0 S0 () = Ok graph0"
    by (simp add: LoadRoundGraph_def L0_def S0_def graph0_def loadHeadRoundForNode_def
        loadFinalRoundForNode_def genesis_def final0_def cache1_def
        UpdateFinalCache_def PutUint64_def Let_def)
  from th [THEN conjunct1, rule_format, OF l] have g0: "round_numbers_linked graph0" .
  have inv: "round_numbers_linked (Graph node_adv)"
    by (simp add: round_numbers_linked_def linked_at_def node_adv_def node0_def graph_adv_def
        graph0_def cache1_def final0_def)
  have run: "case handleSnapshotInput L0 S0 node_adv () 0 snapN of
      Some (Ok (e, n, w, k, s)) \<Rightarrow>
        e = None
        \<and> map (\<lambda>(n, c). (n, cNumber c)) (gCacheRound (Graph n)) = [([1], 1), ([2], 2)]
        \<and> map (\<lambda>(n, f). (n, fNumber f)) (gFinalRound (Graph n)) = [([1], 0), ([2], 1)]
    | _ \<Rightarrow> False"
    by code_simp
  then obtain node' w' k' s' where
    r: "handleSnapshotInput L0 S0 node_adv () 0 snapN = Some (Ok (None, node', w', k', s'))"
    and c: "map (\<lambda>(n, c). (n, cNumber c)) (gCacheRound (Graph node')) = [([1], 1), ([2], 2)]"
    and f: "map (\<lambda>(n, f). (n, fNumber f)) (gFinalRound (Graph node')) = [([1], 0), ([2], 1)]"
    by (auto split: option.splits result.splits)
  from th [THEN conjunct2, rule_format, OF inv, THEN conjunct1, rule_format, OF r]
  have lk: "round_numbers_linked (Graph node')" .
  from l g0 inv r c f lk show ?thesis
    by (intro conjI exI) (assumption+)
qed

lemma finalize_snapshot_write_failure:
  assumes "fst (SnapshotsWriteSnapshot S w
           \<lparr>tSnapshot = s, TopologicalOrder = fst (TopoCounterNext L (TopoCounter node)),
            RoundLinks = links\<rparr>) = Some err"
  shows "\<exists>node' w'. finalize_snapshot L S node w s links cache final = (Some err, node', w')
                   \<and> Graph node' = Graph node"
proof -
  obtain order counter where n: "TopoCounterNext L (TopoCounter node) = (order, counter)"
    by (cases "TopoCounterNext L (TopoCounter node)")
  obtain eo w1 where w1: "SnapshotsWriteSnapshot S w
      \<lparr>tSnapshot = s, TopologicalOrder = order, RoundLinks = links\<rparr> = (eo, w1)"
    by (cases "SnapshotsWriteSnapshot S w
      \<lparr>tSnapshot = s, TopologicalOrder = order, RoundLinks = links\<rparr>")
  from assms n w1 have eo: "eo = Some err" by simp
  from n w1 eo show ?thesis
    by (simp add: finalize_snapshot_def Let_def)
qed

text \<open>
  C9. On the finalization path of \<open>handleSnapshotInput\<close> (the snapshot is new and
  valid, \<open>signSnapshot\<close> and, where it runs, \<open>verifySnapshot\<close> return without error,
  and \<open>verifyFinalization\<close> holds), when the store's write of the snapshot with its
  topological order fails, the handler returns that error and the graph's
  \<open>CacheRound\<close> and \<open>FinalRound\<close> maps are those before the call. More generally,
  whenever the handler returns an error the two maps are unchanged; in particular
  \<open>cache_round[s.node_id]\<close> and \<open>final_round[s.node_id]\<close> are. (The topological
  counter has advanced and the signature pool may have been written.)
\<close>

theorem write_failure_leaves_graph_uncommitted:
  "(\<forall>cache final s2 k2 links cache' final' node1 s3.
        SnapshotsReadSnapshotByTransactionHash S w (TransactionPayloadHash L (Transaction s))
          = Inr None
      \<and> Validate S w (Transaction s) = None
      \<and> signSnapshot L S node k (clearConsensusSignatures L node s)
          = Some (Ok (cache, final, None, s2, k2))
      \<and> (if NodeId s2 \<noteq> IdForNetwork node \<or> length (Signatures s2) > 1
          then verifySnapshot L S w node s2
          else Ok (Map.empty, cache, final, None, node, s2))
          = Ok (links, cache', final', None, node1, s3)
      \<and> verifyFinalization node1 s3
      \<and> fst (SnapshotsWriteSnapshot S w
             \<lparr>tSnapshot = s3, TopologicalOrder = fst (TopoCounterNext L (TopoCounter node1)),
              RoundLinks = links\<rparr>) = Some err
      \<longrightarrow> (\<exists>node' w'.
             handleSnapshotInput L S node w k s = Some (Ok (Some err, node', w', k2, s3))
           \<and> gCacheRound (Graph node') = gCacheRound (Graph node)
           \<and> gFinalRound (Graph node') = gFinalRound (Graph node)))
   \<and> (\<forall>e node' w' k' s'.
         handleSnapshotInput L S node w k s = Some (Ok (Some e, node', w', k', s')) \<longrightarrow>
           gCacheRound (Graph node') = gCacheRound (Graph node)
         \<and> gFinalRound (Graph node') = gFinalRound (Graph node)
         \<and> map_of (gCacheRound (Graph node')) (NodeId s)
             = map_of (gCacheRound (Graph node)) (NodeId s)
         \<and> map_of (gFinalRound (Graph node')) (NodeId s)
             = map_of (gFinalRound (Graph node)) (NodeId s))"
proof (intro conjI allI impI)
  fix cache final s2 k2 links cache' final' node1 s3
  assume path:
     "SnapshotsReadSnapshotByTransactionHash S w (TransactionPayloadHash L (Transaction s))
          = Inr None
      \<and> Validate S w (Transaction s) = None
      \<and> signSnapshot L S node k (clearConsensusSignatures L node s)
          = Some (Ok (cache, final, None, s2, k2))
      \<and> (if NodeId s2 \<noteq> IdForNetwork node \<or> length (Signatures s2) > 1
          then verifySnapshot L S w node s2
          else Ok (Map.empty, cache, final, None, node, s2))
          = Ok (links, cache', final', None, node1, s3)
      \<and> verifyFinalization node1 s3
      \<and> fst (SnapshotsWriteSnapshot S w
             \<lparr>tSnapshot = s3, TopologicalOrder = fst (TopoCounterNext L (TopoCounter node1)),
              RoundLinks = links\<rparr>) = Some err"
  from path finalize_snapshot_write_failure [of S w s3 L node1 links err cache' final']
  obtain node2 w2 where
    fin: "finalize_snapshot L S node1 w s3 links cache' final' = (Some err, node2, w2)"
    and g2: "Graph node2 = Graph node1"
    by blast
  have run: "handleSnapshotInput L S node w k s = Some (Ok (Some err, deferred node2, w2, k2, s3))"
    using path fin by (simp add: handleSnapshotInput_def Let_def)
  from handleSnapshotInput_error_uncommitted [OF run] run
  show "\<exists>node' w'.
             handleSnapshotInput L S node w k s = Some (Ok (Some err, node', w', k2, s3))
           \<and> gCacheRound (Graph node') = gCacheRound (Graph node)
           \<and> gFinalRound (Graph node') = gFinalRound (Graph node)"
    by blast
next
  fix e node' w' k' s'
  assume res: "handleSnapshotInput L S node w k s = Some (Ok (Some e, node', w', k', s'))"
  note u = handleSnapshotInput_error_uncommitted [OF res]
  from u show "gCacheRound (Graph node') = gCacheRound (Graph node)" by simp
  from u show "gFinalRound (Graph node') = gFinalRound (Graph node)" by simp
  from u show "map_of (gCacheRound (Graph node')) (NodeId s)
             = map_of (gCacheRound (Graph node)) (NodeId s)" by simp
  from u show "map_of (gFinalRound (Graph node')) (NodeId s)
             = map_of (gFinalRound (Graph node)) (NodeId s)" by simp
qed

theorem write_failure_leaves_graph_uncommitted_witness:
  "SnapshotsReadSnapshotByTransactionHash S1 () (TransactionPayloadHash L0 (Transaction snapS))
     = Inr None
   \<and> Validate S1 () (Transaction snapS) = None
   \<and> signSnapshot L0 S1 node0 0 (clearConsensusSignatures L0 node0 snapS)
       = Some (Ok (cache1 [2], final0 [2], None, snapS, 0))
   \<and> NodeId snapS \<noteq> IdForNetwork node0
   \<and> (\<exists>node1. verifySnapshot L0 S1 () node0 snapS
         = Ok ([[2] \<mapsto> 0, [1] \<mapsto> 0], cache1 [2], final0 [2], None, node1, snapS)
       \<and> verifyFinalization node1 snapS
       \<and> fst (SnapshotsWriteSnapshot S1 ()
             \<lparr>tSnapshot = snapS, TopologicalOrder = fst (TopoCounterNext L0 (TopoCounter node1)),
              RoundLinks = [[2] \<mapsto> 0, [1] \<mapsto> 0]\<rparr>) = Some (External ''write failed''))
   \<and> (\<exists>node' w'.
         handleSnapshotInput L0 S1 node0 () 0 snapS
           = Some (Ok (Some (External ''write failed''), node', w', 0, snapS))
       \<and> gCacheRound (Graph node') = gCacheRound (Graph node0)
       \<and> gFinalRound (Graph node') = gFinalRound (Graph node0)
       \<and> map_of (gCacheRound (Graph node')) [2] = Some (cache1 [2]))"
proof -
  define node1 where
    "node1 = node0\<lparr>SnapshotsPool :=
               (SnapshotsPool node0)(PayloadHash L0 snapS \<mapsto> Signatures snapS)\<rparr>"
  have rd: "SnapshotsReadSnapshotByTransactionHash S1 ()
              (TransactionPayloadHash L0 (Transaction snapS)) = Inr None"
    and va: "Validate S1 () (Transaction snapS) = None"
    by (simp_all add: S1_def S0_def)
  have cl: "clearConsensusSignatures L0 node0 snapS = snapS"
    by (simp add: clearConsensusSignatures_def L0_def node0_def snapS_def Let_def)
  have sg: "signSnapshot L0 S1 node0 0 (clearConsensusSignatures L0 node0 snapS)
              = Some (Ok (cache1 [2], final0 [2], None, snapS, 0))"
    unfolding cl by (simp add: signSnapshot_def node0_def graph0_def snapS_def Copy_def cache1_def)
  have other: "NodeId snapS \<noteq> IdForNetwork node0"
    by (simp add: snapS_def node0_def)
  have refs: "verifyReferences S1 () node0 (final0 [2]) snapS
             = Ok ([[2] \<mapsto> 0, [1] \<mapsto> 0], True, None)"
    by (simp add: verifyReferences_def check_round_links_def link_at_def S1_def S0_def node0_def
        graph0_def final0_def snapS_def Let_def)
  have vf: "verifyFinalization node0 snapS"
    by (simp add: verifyFinalization_def node0_def snapS_def)
  have lk: "map_of (gCacheRound (Graph node0)) (NodeId snapS) = Some (cache1 [2])"
    "map_of (gFinalRound (Graph node0)) (NodeId snapS) = Some (final0 [2])"
    "pool_at (SnapshotsPool node0) (PayloadHash L0 snapS) = []"
    by (simp_all add: node0_def graph0_def snapS_def pool_at_def)
  have mg: "merge_signatures (Signatures snapS) (set (Signatures snapS)) [] = Signatures snapS"
    by simp
  have vs: "verifySnapshot L0 S1 () node0 snapS
         = Ok ([[2] \<mapsto> 0, [1] \<mapsto> 0], cache1 [2], final0 [2], None, node1, snapS)"
    using lk vf refs mg
    by (simp add: verifySnapshot_def Let_def Copy_def cache1_def node1_def)
  have vf1: "verifyFinalization node1 snapS"
    using vf by (simp add: verifyFinalization_def node1_def)
  have wr: "fst (SnapshotsWriteSnapshot S1 ()
             \<lparr>tSnapshot = snapS, TopologicalOrder = fst (TopoCounterNext L0 (TopoCounter node1)),
              RoundLinks = [[2] \<mapsto> 0, [1] \<mapsto> 0]\<rparr>) = Some (External ''write failed'')"
    by (simp add: S1_def S0_def)
  have path: "SnapshotsReadSnapshotByTransactionHash S1 ()
          (TransactionPayloadHash L0 (Transaction snapS)) = Inr None
      \<and> Validate S1 () (Transaction snapS) = None
      \<and> signSnapshot L0 S1 node0 0 (clearConsensusSignatures L0 node0 snapS)
          = Some (Ok (cache1 [2], final0 [2], None, snapS, 0))
      \<and> (if NodeId snapS \<noteq> IdForNetwork node0 \<or> length (Signatures snapS) > 1
          then verifySnapshot L0 S1 () node0 snapS
          else Ok (Map.empty, cache1 [2], final0 [2], None, node0, snapS))
          = Ok ([[2] \<mapsto> 0, [1] \<mapsto> 0], cache1 [2], final0 [2], None, node1, snapS)
      \<and> verifyFinalization node1 snapS
      \<and> fst (SnapshotsWriteSnapshot S1 ()
             \<lparr>tSnapshot = snapS, TopologicalOrder = fst (TopoCounterNext L0 (TopoCounter node1)),
              RoundLinks = [[2] \<mapsto> 0, [1] \<mapsto> 0]\<rparr>) = Some (External ''write failed'')"
    using rd va sg other vs vf1 wr by simp
  from write_failure_leaves_graph_uncommitted
    [of S1 "()" L0 snapS node0 0 "External ''write failed''",
      THEN conjunct1, rule_format, OF path]
  obtain node' w' where
    r: "handleSnapshotInput L0 S1 node0 () 0 snapS
          = Some (Ok (Some (External ''write failed''), node', w', 0, snapS))"
    and c: "gCacheRound (Graph node') = gCacheRound (Graph node0)"
    and f: "gFinalRound (Graph node') = gFinalRound (Graph node0)"
    by blast
  have m: "map_of (gCacheRound (Graph node')) [2] = Some (cache1 [2])"
    using c by (simp add: node0_def graph0_def)
  have ex1: "\<exists>node1. verifySnapshot L0 S1 () node0 snapS
         = Ok ([[2] \<mapsto> 0, [1] \<mapsto> 0], cache1 [2], final0 [2], None, node1, snapS)
       \<and> verifyFinalization node1 snapS
       \<and> fst (SnapshotsWriteSnapshot S1 ()
             \<lparr>tSnapshot = snapS, TopologicalOrder = fst (TopoCounterNext L0 (TopoCounter node1)),
              RoundLinks = [[2] \<mapsto> 0, [1] \<mapsto> 0]\<rparr>) = Some (External ''write failed'')"
    using vs vf1 wr by (intro exI conjI) (assumption+)
  have ex2: "\<exists>node' w'.
         handleSnapshotInput L0 S1 node0 () 0 snapS
           = Some (Ok (Some (External ''write failed''), node', w', 0, snapS))
       \<and> gCacheRound (Graph node') = gCacheRound (Graph node0)
       \<and> gFinalRound (Graph node') = gFinalRound (Graph node0)
       \<and> map_of (gCacheRound (Graph node')) [2] = Some (cache1 [2])"
    using r c f m by (intro exI conjI) (assumption+)
  from rd va sg other ex1 ex2 show ?thesis
    by (intro conjI) (assumption+)
qed

subsection \<open>A snapshot rejected by \<open>verifySnapshot\<close>\<close>

text \<open>
  C4. The claim: on the round-advance path of \<open>verifySnapshot\<close>, a snapshot that after
  the round-advance step has \<open>s.RoundNumber != cache.Number\<close> or \<open>s.Timestamp <
  cache.End\<close> is rejected silently, with no error, empty links and no mutation: the
  graph state for \<open>s.NodeId\<close> is left unchanged. The code: for such a snapshot of
  another validator (new and valid transaction, no pooled signatures, not finalized)
  \<open>verifySnapshot\<close> returns no error, nil links and the node and the snapshot as they
  were, and with them the cache and the final round of its round-advance step.
  \<open>handleSnapshotInput\<close> tests only the error, so when the inputs lock and the send
  succeeds it signs the snapshot, sends it and stores that pair as the graph state for
  \<open>s.NodeId\<close>. Where the round-advance step has sealed the round or moved its start,
  the reject changes the graph.
\<close>

theorem alignment_reject_is_committed:
  assumes fresh: "SnapshotsReadSnapshotByTransactionHash S w
                    (TransactionPayloadHash L (Transaction s)) = Inr None"
    and valid: "Validate S w (Transaction s) = None"
    and foreign: "NodeId s \<noteq> IdForNetwork node"
    and c: "map_of (gCacheRound (Graph node)) (NodeId s) = Some c"
    and f: "map_of (gFinalRound (Graph node)) (NodeId s) = Some f"
    and s1: "s1 = clearConsensusSignatures L node s"
    and pool: "pool_at (SnapshotsPool node) (PayloadHash L s1) = []"
    and nofin: "\<not> verifyFinalization node s1"
    and adv: "verify_round_advance L node s1 (Copy c) f = Ok (cache', final')"
    and mis: "RoundNumber s1 \<noteq> cNumber cache' \<or> Timestamp s1 < cEnd cache'"
    and lock: "LockInputs S w s1 = (None, w1)"
    and s2: "s2 = snd (sign L node s1)"
    and send: "SendSnapshotMessage S w1 (NodeId s) s2 = (None, w2)"
  shows "verifySnapshot L S w node s1 = Ok (Map.empty, cache', final', None, node, s1)
       \<and> (\<exists>node'. handleSnapshotInput L S node w k s = Some (Ok (None, node', w2, k, s2))
             \<and> map_of (gCacheRound (Graph node')) (NodeId s) = Some cache'
             \<and> map_of (gFinalRound (Graph node')) (NodeId s) = Some final')"
proof -
  obtain node2 where sg: "sign L node s1 = (node2, s2)"
    using s2 by (cases "sign L node s1") simp
  have n1: "NodeId s1 = NodeId s"
    by (simp add: s1 clearConsensusSignatures_NodeId)
  have n2: "NodeId s2 = NodeId s" "IdForNetwork node2 = IdForNetwork node"
    "Graph node2 = Graph node"
    using sign_fields [OF sg] n1 by simp_all
  have sgn: "signSnapshot L S node k s1 = Some (Ok (Copy c, f, None, s1, k))"
    using c f foreign n1 by (simp add: signSnapshot_def Let_def)
  have vs: "verifySnapshot L S w node s1 = Ok (Map.empty, cache', final', None, node, s1)"
    using c f pool nofin adv mis n1 by (simp add: verifySnapshot_def Let_def)
  have ss: "sign_and_send L S node w k s1 cache' final'
              = (None, commit node2 s2 cache' final', w2, k, s2)"
    using lock sg send n2 foreign by (simp add: sign_and_send_def)
  have h: "handleSnapshotInput L S node w k s
             = Some (Ok (None, deferred (commit node2 s2 cache' final'), w2, k, s2))"
    using fresh valid sgn vs ss nofin foreign n1
    by (simp add: handleSnapshotInput_def Let_def s1 [symmetric])
  have "map_of (gCacheRound (Graph (deferred (commit node2 s2 cache' final')))) (NodeId s)
          = Some cache'"
    "map_of (gFinalRound (Graph (deferred (commit node2 s2 cache' final')))) (NodeId s)
          = Some final'"
    by (simp_all add: deferred_Graph commit_Graph UpdateFinalCache_def n2 update_conv')
  with h vs show ?thesis by blast
qed

text \<open>
  On the small network after \<open>snapS\<close>: the unsigned \<open>snapMis\<close> of validator \<open>[2]\<close> names
  round 7 while \<open>[2]\<close>'s cache round is round 1, and its timestamp is past the round
  gap. \<open>verifySnapshot\<close> rejects it, and the handler returns no error with \<open>[2]\<close>'s
  round 1 sealed (cache round 1 with \<open>snapS\<close> replaced by the empty round 2, final round
  0 by round 1) and the snapshot signed with this node's key.
\<close>

theorem alignment_reject_is_committed_witness:
  "SnapshotsReadSnapshotByTransactionHash S0 ()
     (TransactionPayloadHash L0 (Transaction snapMis)) = Inr None
   \<and> Validate S0 () (Transaction snapMis) = None
   \<and> NodeId snapMis \<noteq> IdForNetwork node_adv
   \<and> map_of (gCacheRound (Graph node_adv)) (NodeId snapMis)
       = Some \<lparr>cNodeId = [2], cNumber = 1, cStart = 0, cEnd = 50, cSnapshots = [snapS]\<rparr>
   \<and> map_of (gFinalRound (Graph node_adv)) (NodeId snapMis) = Some (final0 [2])
   \<and> clearConsensusSignatures L0 node_adv snapMis = snapMis
   \<and> pool_at (SnapshotsPool node_adv) (PayloadHash L0 snapMis) = []
   \<and> \<not> verifyFinalization node_adv snapMis
   \<and> verify_round_advance L0 node_adv snapMis
         (Copy \<lparr>cNodeId = [2], cNumber = 1, cStart = 0, cEnd = 50, cSnapshots = [snapS]\<rparr>)
         (final0 [2]) = Ok (cache_adv, final_adv)
   \<and> RoundNumber snapMis \<noteq> cNumber cache_adv
   \<and> LockInputs S0 () snapMis = (None, ())
   \<and> snd (sign L0 node_adv snapMis) = snapMis\<lparr>Signatures := [[7, 13]]\<rparr>
   \<and> SendSnapshotMessage S0 () (NodeId snapMis) (snapMis\<lparr>Signatures := [[7, 13]]\<rparr>)
       = (None, ())
   \<and> verifySnapshot L0 S0 () node_adv snapMis
       = Ok (Map.empty, cache_adv, final_adv, None, node_adv, snapMis)
   \<and> (\<exists>node'. handleSnapshotInput L0 S0 node_adv () 0 snapMis
                 = Some (Ok (None, node', (), 0, snapMis\<lparr>Signatures := [[7, 13]]\<rparr>))
          \<and> map_of (gCacheRound (Graph node')) (NodeId snapMis) = Some cache_adv
          \<and> map_of (gFinalRound (Graph node')) (NodeId snapMis) = Some final_adv)"
proof -
  have fresh: "SnapshotsReadSnapshotByTransactionHash S0 ()
                 (TransactionPayloadHash L0 (Transaction snapMis)) = Inr None"
    and valid: "Validate S0 () (Transaction snapMis) = None"
    and lock: "LockInputs S0 () snapMis = (None, ())"
    by (simp_all add: S0_def)
  have foreign: "NodeId snapMis \<noteq> IdForNetwork node_adv"
    by (simp add: snapMis_def snapN_def node_adv_def node0_def)
  have c: "map_of (gCacheRound (Graph node_adv)) (NodeId snapMis)
             = Some \<lparr>cNodeId = [2], cNumber = 1, cStart = 0, cEnd = 50, cSnapshots = [snapS]\<rparr>"
    and f: "map_of (gFinalRound (Graph node_adv)) (NodeId snapMis) = Some (final0 [2])"
    by (simp_all add: node_adv_def node0_def graph_adv_def graph0_def snapMis_def snapN_def)
  have s1: "snapMis = clearConsensusSignatures L0 node_adv snapMis"
    by (simp add: clearConsensusSignatures_def Let_def snapMis_def snapN_def)
  have pool: "pool_at (SnapshotsPool node_adv) (PayloadHash L0 snapMis) = []"
    by (simp add: pool_at_def node_adv_def node0_def)
  have nofin: "\<not> verifyFinalization node_adv snapMis"
    by (simp add: verifyFinalization_def node_adv_def node0_def snapMis_def snapN_def)
  have adv: "verify_round_advance L0 node_adv snapMis
               (Copy \<lparr>cNodeId = [2], cNumber = 1, cStart = 0, cEnd = 50, cSnapshots = [snapS]\<rparr>)
               (final0 [2]) = Ok (cache_adv, final_adv)"
    by code_simp
  have mis: "RoundNumber snapMis \<noteq> cNumber cache_adv \<or> Timestamp snapMis < cEnd cache_adv"
    by (simp add: snapMis_def snapN_def cache_adv_def)
  have s2: "snapMis\<lparr>Signatures := [[7, 13]]\<rparr> = snd (sign L0 node_adv snapMis)"
    by code_simp
  have send: "SendSnapshotMessage S0 () (NodeId snapMis) (snapMis\<lparr>Signatures := [[7, 13]]\<rparr>)
                = (None, ())"
    by (simp add: S0_def)
  have r: "RoundNumber snapMis \<noteq> cNumber cache_adv"
    by (simp add: snapMis_def snapN_def cache_adv_def)
  note run = alignment_reject_is_committed
    [OF fresh valid foreign c f s1 pool nofin adv mis lock s2 send, of 0]
  from run [THEN conjunct1] run [THEN conjunct2]
    fresh valid foreign c f s1 [symmetric] pool nofin adv r lock s2 [symmetric] send
  show ?thesis
    by (intro conjI) (assumption+)
qed

text \<open>
  The same happens when the round is not sealed: on the small network at its start, the
  rejected snapshot \<open>snapR\<close> (round 5 instead of 1) moves the start of validator \<open>[2]\<close>'s
  empty cache round and comes back signed by this node.
\<close>

lemma handleSnapshotInput_after_alignment_reject:
  "case handleSnapshotInput L0 S0 node0 () 0 snapR of
     Some (Ok (e, n, w, k, s)) \<Rightarrow>
       e = None
       \<and> map_of (gCacheRound (Graph node0)) [2] = Some (cache1 [2])
       \<and> map_of (gCacheRound (Graph n)) [2] = Some ((cache1 [2])\<lparr>cStart := 4000000000\<rparr>)
       \<and> Signatures s = [[7, 12]]
   | _ \<Rightarrow> False"
  by code_simp

end
